theory Spec2Isabelle
  imports Main "HOL-Library.Multiset" "HOL-Library.Word"
begin

text \<open>
  GopherDrive: the asynchronous pipeline that analyses uploaded files. The analyzer
  (package \<^verbatim>\<open>hasher\<close>), the worker pool (package \<^verbatim>\<open>worker\<close>) and the results
  consumer (\<^verbatim>\<open>handleResults\<close> of the server's \<^verbatim>\<open>main\<close>) are embedded as functions,
  definitions first, then what is proved of them.
\<close>

section \<open>Package hasher: streaming SHA-256 hashing and metadata extraction\<close>

subsection \<open>Bytes, files and the operating-system calls the analyzer makes\<close>

text \<open>
  A byte is a \<^typ>\<open>char\<close> (eight bits); a file's content and every Go \<^verbatim>\<open>[]byte\<close> is a
  list of them, a Go \<^verbatim>\<open>string\<close> is a \<^typ>\<open>string\<close>.

  The file system maps a path to what is stored there. \<^verbatim>\<open>os.Open\<close> succeeds on a
  directory as well as on a regular file, but reading a directory fails, so both kinds of
  node are kept.
\<close>

type_synonym byte = char

datatype node = Regular "byte list" | Directory

type_synonym filesystem = "string \<Rightarrow> node option"

datatype io_error = EOF | ErrNotExist | ErrIsDirectory | ErrFormat

text \<open>An open \<^verbatim>\<open>*os.File\<close>: the node it was opened on and the read offset.\<close>

record File =
  content :: node
  offset :: nat

definition Open :: "filesystem \<Rightarrow> string \<Rightarrow> io_error + File" where
  "Open fs path =
     (case fs path of
        None \<Rightarrow> Inl ErrNotExist
      | Some n \<Rightarrow> Inr \<lparr> content = n, offset = 0 \<rparr>)"

text \<open>
  \<^verbatim>\<open>f.Read(buf)\<close> with \<^verbatim>\<open>len(buf) = k\<close>: the bytes read, the error, and the
  file with its offset moved. A regular file yields as many bytes as are left, up to
  \<open>k\<close>; at the end of the file it yields no byte and \<^verbatim>\<open>io.EOF\<close>.
\<close>

definition Read :: "File \<Rightarrow> nat \<Rightarrow> byte list \<times> io_error option \<times> File" where
  "Read f k =
     (case content f of
        Directory \<Rightarrow> ([], Some ErrIsDirectory, f)
      | Regular bs \<Rightarrow>
          if k = 0 then ([], None, f)
          else if length bs \<le> offset f then ([], Some EOF, f)
          else (take k (drop (offset f) bs), None,
                f \<lparr> offset := offset f + min k (length bs - offset f) \<rparr>))"

text \<open>\<^verbatim>\<open>f.Seek(off, io.SeekStart)\<close>: the offset is set; the call does not fail on a node
  of the model.\<close>

definition Seek :: "File \<Rightarrow> nat \<Rightarrow> io_error + File" where
  "Seek f off = Inr (f \<lparr> offset := off \<rparr>)"

subsection \<open>The library functions the analyzer is built on\<close>

text \<open>
  \<^verbatim>\<open>http.DetectContentType\<close>, \<^verbatim>\<open>crypto/sha256\<close> and \<^verbatim>\<open>image.DecodeConfig\<close> are
  not code of this repository: they are parameters of the model. \<open>Sum256\<close> is the
  digest of a whole message; a \<^verbatim>\<open>hash.Hash\<close> is modelled by the bytes written to it so
  far, and \<^verbatim>\<open>h.Sum(nil)\<close> is \<open>Sum256\<close> of them. \<open>DecodeConfig\<close> gives the
  width and height of an image read from its first byte, or fails.
\<close>

record lib =
  DetectContentType :: "byte list \<Rightarrow> string"
  Sum256 :: "byte list \<Rightarrow> byte list"
  DecodeConfig :: "byte list \<Rightarrow> io_error + (int \<times> int)"

text \<open>\<^verbatim>\<open>hex.EncodeToString\<close>: two lower-case hexadecimal digits per byte.\<close>

definition hextable :: string where
  "hextable = ''0123456789abcdef''"

fun EncodeToString :: "byte list \<Rightarrow> string" where
  "EncodeToString [] = []"
| "EncodeToString (b # bs) =
     hextable ! ((of_char b :: nat) div 16) # hextable ! ((of_char b :: nat) mod 16)
       # EncodeToString bs"

text \<open>
  \<^verbatim>\<open>io.Copy(h, f)\<close>, the loop of \<^verbatim>\<open>io.copyBuffer\<close>: read chunks of 32 KiB until
  \<^verbatim>\<open>io.EOF\<close>, write each to the hash, count the bytes written. \<open>h\<close> is the hash
  (the bytes written so far), \<open>written\<close> the running count (an \<^verbatim>\<open>int64\<close>; a file
  is shorter than \<open>2^63\<close> bytes).
\<close>

function Copy :: "byte list \<Rightarrow> File \<Rightarrow> int \<Rightarrow> io_error + (byte list \<times> int \<times> File)" where
  "Copy h f written =
     (case Read f (32 * 1024) of
        (buf, er, f') \<Rightarrow>
          (let h' = (if buf \<noteq> [] then h @ buf else h);
               written' = (if buf \<noteq> [] then written + int (length buf) else written)
           in case er of
                Some EOF \<Rightarrow> Inr (h', written', f')
              | Some e \<Rightarrow> Inl e
              | None \<Rightarrow> Copy h' f' written'))"
  by pat_completeness auto
termination
  apply (relation "measure (\<lambda>(h, f, w). case content f of Regular bs \<Rightarrow> length bs - offset f | Directory \<Rightarrow> 0)")
   apply simp
  apply (auto simp: Read_def split: node.splits if_splits)
  done

declare Copy.simps [simp del]

subsection \<open>Path and string helpers\<close>

text \<open>\<^verbatim>\<open>strings.HasPrefix\<close>.\<close>

definition HasPrefix :: "string \<Rightarrow> string \<Rightarrow> bool" where
  "HasPrefix s pre = (length pre \<le> length s \<and> take (length pre) s = pre)"

text \<open>
  \<^verbatim>\<open>filepath.Ext\<close>: the suffix beginning at the final dot of the final element of the
  path, empty when that element has no dot. \<open>ext_scan\<close> is the loop, from the last
  byte backwards, over the reversed path; \<open>acc\<close> holds the bytes already passed.
\<close>

fun ext_scan :: "string \<Rightarrow> string \<Rightarrow> string" where
  "ext_scan [] acc = []"
| "ext_scan (c # cs) acc =
     (if c = CHR ''/'' then []
      else if c = CHR ''.'' then c # acc
      else ext_scan cs (c # acc))"

definition Ext :: "string \<Rightarrow> string" where
  "Ext path = ext_scan (rev path) []"

subsection \<open>The line scanner and the word splitter of the text analyzer\<close>

text \<open>
  \<^verbatim>\<open>bufio.Scanner\<close> with its default split function \<^verbatim>\<open>ScanLines\<close> and its
  default buffer. The scanner's buffer grows to \<^verbatim>\<open>bufio.MaxScanTokenSize\<close> (64 KiB) and
  no further: when that many unread bytes hold no newline, \<^verbatim>\<open>Scan\<close> stops with
  \<^verbatim>\<open>bufio.ErrTooLong\<close>. One call of \<^verbatim>\<open>Scan\<close> on the unread input gives the next
  token and the input left, or stops.
\<close>

definition MaxScanTokenSize :: nat where
  "MaxScanTokenSize = 64 * 1024"

datatype scan = Token "byte list" "byte list" | Done | ErrTooLong

text \<open>\<^verbatim>\<open>dropCR\<close>: one trailing carriage return is dropped.\<close>

definition dropCR :: "byte list \<Rightarrow> byte list" where
  "dropCR data = (if data \<noteq> [] \<and> last data = CHR 0x0D then butlast data else data)"

definition Scan :: "byte list \<Rightarrow> scan" where
  "Scan input =
     (if input = [] then Done
      else if CHR 0x0A \<in> set (take MaxScanTokenSize input)
        then Token (dropCR (takeWhile (\<lambda>b. b \<noteq> CHR 0x0A) input))
                   (tl (dropWhile (\<lambda>b. b \<noteq> CHR 0x0A) input))
      else if MaxScanTokenSize \<le> length input then ErrTooLong
      else Token (dropCR input) [])"

text \<open>
  \<^verbatim>\<open>utf8.DecodeRune\<close> on a non-empty slice: the code point and the number of bytes it
  takes; an invalid or truncated encoding is \<^verbatim>\<open>RuneError\<close> of width 1.
\<close>

definition RuneError :: nat where
  "RuneError = 0xFFFD"

definition locb :: nat where "locb = 0x80"
definition hicb :: nat where "hicb = 0xBF"

text \<open>The table \<^verbatim>\<open>first\<close> with \<^verbatim>\<open>acceptRanges\<close>: for a leading byte, the size of
  the encoding and the range its second byte must lie in; \<open>None\<close> for a byte that
  starts no multi-byte encoding.\<close>

definition first :: "nat \<Rightarrow> (nat \<times> nat \<times> nat) option" where
  "first p0 =
     (if p0 < 0xC2 then None
      else if p0 \<le> 0xDF then Some (2, locb, hicb)
      else if p0 = 0xE0 then Some (3, 0xA0, hicb)
      else if p0 \<le> 0xEC then Some (3, locb, hicb)
      else if p0 = 0xED then Some (3, locb, 0x9F)
      else if p0 \<le> 0xEF then Some (3, locb, hicb)
      else if p0 = 0xF0 then Some (4, 0x90, hicb)
      else if p0 \<le> 0xF3 then Some (4, locb, hicb)
      else if p0 = 0xF4 then Some (4, locb, 0x8F)
      else None)"

definition DecodeRune :: "byte list \<Rightarrow> nat \<times> nat" where
  "DecodeRune p =
     (let n = length p; p0 = (of_char (p ! 0) :: nat) in
      if p0 < 0x80 then (p0, 1)
      else case first p0 of
        None \<Rightarrow> (RuneError, 1)
      | Some (sz, lo, hi) \<Rightarrow>
          if n < sz then (RuneError, 1)
          else let b1 = (of_char (p ! 1) :: nat) in
            if b1 < lo \<or> hi < b1 then (RuneError, 1)
            else if sz \<le> 2 then ((p0 mod 0x20) * 0x40 + b1 mod 0x40, 2)
            else let b2 = (of_char (p ! 2) :: nat) in
              if b2 < locb \<or> hicb < b2 then (RuneError, 1)
              else if sz \<le> 3
                then ((p0 mod 0x10) * 0x1000 + (b1 mod 0x40) * 0x40 + b2 mod 0x40, 3)
              else let b3 = (of_char (p ! 3) :: nat) in
                if b3 < locb \<or> hicb < b3 then (RuneError, 1)
                else ((p0 mod 0x08) * 0x40000 + (b1 mod 0x40) * 0x1000
                        + (b2 mod 0x40) * 0x40 + b3 mod 0x40, 4))"

text \<open>\<^verbatim>\<open>unicode.IsSpace\<close>: the Latin-1 spaces, and beyond Latin-1 the code points of
  the \<^verbatim>\<open>White_Space\<close> table.\<close>

definition IsSpace :: "nat \<Rightarrow> bool" where
  "IsSpace r =
     (if r \<le> 0xFF then r \<in> {0x09, 0x0A, 0x0B, 0x0C, 0x0D, 0x20, 0x85, 0xA0}
      else r = 0x1680 \<or> (0x2000 \<le> r \<and> r \<le> 0x200A) \<or> r = 0x2028 \<or> r = 0x2029
           \<or> r = 0x202F \<or> r = 0x205F \<or> r = 0x3000)"

text \<open>
  \<^verbatim>\<open>bytes.Fields\<close> splits around runs of white space; on ASCII input its fast path
  and \<^verbatim>\<open>bytes.FieldsFunc(s, unicode.IsSpace)\<close> give the same fields, so the one loop of
  \<^verbatim>\<open>FieldsFunc\<close> is the model. \<open>cur\<close> is the field being read (\<^verbatim>\<open>start >= 0\<close>),
  if any.
\<close>

fun FieldsFunc :: "byte list \<Rightarrow> byte list option \<Rightarrow> byte list list" where
  "FieldsFunc [] cur = (case cur of None \<Rightarrow> [] | Some w \<Rightarrow> [w])"
| "FieldsFunc (b # bs) cur =
     (let (r, width) = DecodeRune (b # bs) in
      if IsSpace r
        then (case cur of
                None \<Rightarrow> FieldsFunc (drop (width - 1) bs) None
              | Some w \<Rightarrow> w # FieldsFunc (drop (width - 1) bs) None)
      else FieldsFunc (drop (width - 1) bs)
             (Some ((case cur of None \<Rightarrow> [] | Some w \<Rightarrow> w) @ take width (b # bs))))"

definition Fields :: "byte list \<Rightarrow> byte list list" where
  "Fields s = FieldsFunc s None"

subsection \<open>The analyzer\<close>

text \<open>A value stored in the metadata map (\<^verbatim>\<open>interface{}\<close>): a string or an integer.\<close>

datatype val = Str string | Num int

record Metadata =
  Hash :: string
  Size :: int
  Extension :: string
  Extra :: "string \<rightharpoonup> val"

datatype hasher_error =
    OpenFileError io_error
  | ReadHeadError io_error
  | SeekError io_error
  | CopyError io_error

definition analyzeImage :: "lib \<Rightarrow> filesystem \<Rightarrow> string \<Rightarrow> io_error + (string \<rightharpoonup> val)" where
  "analyzeImage L fs path =
     (case Open fs path of
        Inl e \<Rightarrow> Inl e
      | Inr f \<Rightarrow>
          (case content f of
             Directory \<Rightarrow> Inl ErrIsDirectory
           | Regular bs \<Rightarrow>
               (case DecodeConfig L bs of
                  Inl e \<Rightarrow> Inl e
                | Inr (w, h) \<Rightarrow> Inr [''width'' \<mapsto> Num w, ''height'' \<mapsto> Num h])))"

text \<open>The loop \<^verbatim>\<open>for scanner.Scan() { lines++; words += len(bytes.Fields(scanner.Bytes())) }\<close>
  on the unread input. It ends when \<^verbatim>\<open>Scan\<close> returns false, at the end of the input or
  on an error; the error of the scanner is not looked at.\<close>

function scan_loop :: "byte list \<Rightarrow> int \<Rightarrow> int \<Rightarrow> int \<times> int" where
  "scan_loop input lines words =
     (case Scan input of
        Token tok rest \<Rightarrow> scan_loop rest (lines + 1) (words + int (length (Fields tok)))
      | Done \<Rightarrow> (lines, words)
      | ErrTooLong \<Rightarrow> (lines, words))"
  by pat_completeness auto
termination
proof (relation "measure (\<lambda>(input, lines, words). length input)")
  show "wf (measure (\<lambda>(input, lines, words). length input))"
    by simp
next
  fix input :: "byte list" and lines words :: int and tok rest :: "byte list"
  assume "Scan input = Token tok rest"
  then have "input \<noteq> []"
    and "length rest \<le> length (dropWhile (\<lambda>b. b \<noteq> CHR 0x0A) input) - 1"
    by (auto simp: Scan_def split: if_splits)
  moreover have "length (dropWhile (\<lambda>b. b \<noteq> CHR 0x0A) input) \<le> length input"
    by (rule length_dropWhile_le)
  ultimately have "length rest < length input"
    by (cases input) auto
  then show "((rest, lines + 1, words + int (length (Fields tok))), input, lines, words)
      \<in> measure (\<lambda>(input, lines, words). length input)"
    by simp
qed

declare scan_loop.simps [simp del]

definition analyzeText :: "filesystem \<Rightarrow> string \<Rightarrow> io_error + (string \<rightharpoonup> val)" where
  "analyzeText fs path =
     (case Open fs path of
        Inl e \<Rightarrow> Inl e
      | Inr f \<Rightarrow>
          (case content f of
             Directory \<Rightarrow> Inr [''lines'' \<mapsto> Num 0, ''words'' \<mapsto> Num 0]
           | Regular bs \<Rightarrow>
               (case scan_loop bs 0 0 of
                  (lines, words) \<Rightarrow> Inr [''lines'' \<mapsto> Num lines, ''words'' \<mapsto> Num words])))"

text \<open>
  \<^verbatim>\<open>ComputeMetadata\<close>. The file is opened and hashed on the file system \<open>fs\<close>; the
  category analyzers open the path again, later, on the file system as it is then,
  \<open>fs'\<close>.
\<close>

definition ComputeMetadata :: "lib \<Rightarrow> filesystem \<Rightarrow> filesystem \<Rightarrow> string \<Rightarrow> hasher_error + Metadata" where
  "ComputeMetadata L fs fs' filePath =
     (case Open fs filePath of
        Inl e \<Rightarrow> Inl (OpenFileError e)
      | Inr f \<Rightarrow>
          (case Read f 512 of
             (head, er, f1) \<Rightarrow>
               if er \<noteq> None \<and> er \<noteq> Some EOF then Inl (ReadHeadError (the er))
               else
                 let mimeType = DetectContentType L head in
                 case Seek f1 0 of
                   Inl e \<Rightarrow> Inl (SeekError e)
                 | Inr f2 \<Rightarrow>
                     (case Copy [] f2 0 of
                        Inl e \<Rightarrow> Inl (CopyError e)
                      | Inr (h, written, f3) \<Rightarrow>
                          let hash = EncodeToString (Sum256 L h);
                              extra = [''mime_type'' \<mapsto> Str mimeType];
                              extra' =
                                (if HasPrefix mimeType ''image/''
                                   then (case analyzeImage L fs' filePath of
                                           Inr imgArgs \<Rightarrow> extra ++ imgArgs
                                         | Inl e \<Rightarrow> extra)
                                 else if HasPrefix mimeType ''text/''
                                   then (case analyzeText fs' filePath of
                                           Inr txtArgs \<Rightarrow> extra ++ txtArgs
                                         | Inl e \<Rightarrow> extra)
                                 else extra)
                          in Inr \<lparr> Hash = hash, Size = written,
                                   Extension = Ext filePath, Extra = extra' \<rparr>)))"

section \<open>Package worker: jobs, results and the processing of one job\<close>

text \<open>
  A job's \<^verbatim>\<open>context.Context\<close> is read by \<^verbatim>\<open>ctx.Err()\<close> at two places of
  \<^verbatim>\<open>process\<close>: before the work (\<open>err_before\<close>) and after the analyzer has returned
  (\<open>err_after\<close>; once an error is set, every later call returns the same one). The
  context is modelled by what these two reads return. \<^verbatim>\<open>context.Background()\<close> is never
  cancelled.
\<close>

datatype ctx_err = Canceled | DeadlineExceeded

record Context =
  err_before :: "ctx_err option"
  err_after :: "ctx_err option"

definition Background :: Context where
  "Background = \<lparr> err_before = None, err_after = None \<rparr>"

text \<open>\<open>Ctx = None\<close> is the nil interface value.\<close>

record Job =
  Ctx :: "Context option"
  FileID :: string
  FilePath :: string

text \<open>The errors a result carries: the two wrapped \<^verbatim>\<open>fmt.Errorf\<close> errors of
  \<^verbatim>\<open>process\<close> and the analyzer's error, passed on as it is.\<close>

datatype job_error =
    CancelledBeforeProcessing ctx_err
  | CancelledDuringProcessing ctx_err
  | HasherError hasher_error

text \<open>\<open>Metadata = None\<close> is the nil map, \<open>Err = None\<close> the nil error.\<close>

record Result =
  FileID :: string
  Hash :: string
  Size :: int
  Extension :: string
  Metadata :: "(string \<rightharpoonup> val) option"
  Err :: "job_error option"

text \<open>
  What \<^verbatim>\<open>process\<close> does, in order: the log records it writes (level and message),
  the call of \<^verbatim>\<open>hasher.ComputeMetadata\<close> on a path, and the result it sends on the
  results channel.
\<close>

datatype level = Info | Warn | Error

datatype event = Log level string | Analyze string | Send Result

definition process :: "lib \<Rightarrow> filesystem \<Rightarrow> filesystem \<Rightarrow> int \<Rightarrow> Job \<Rightarrow> event list" where
  "process L fs fs' workerID job =
     (let ctx = (case Ctx job of None \<Rightarrow> Background | Some c \<Rightarrow> c) in
      case err_before ctx of
        Some err \<Rightarrow>
          [Send \<lparr> FileID = Job.FileID job, Hash = [], Size = 0, Extension = [],
                  Metadata = None, Err = Some (CancelledBeforeProcessing err) \<rparr>]
      | None \<Rightarrow>
          Log Info ''processing started'' # Analyze (FilePath job) #
          (case err_after ctx of
             Some err \<Rightarrow>
               [Log Warn ''job context cancelled during processing'',
                Send \<lparr> FileID = Job.FileID job, Hash = [], Size = 0, Extension = [],
                       Metadata = None, Err = Some (CancelledDuringProcessing err) \<rparr>]
           | None \<Rightarrow>
               (case ComputeMetadata L fs fs' (FilePath job) of
                  Inl err \<Rightarrow>
                    [Log Error ''processing failed'',
                     Send \<lparr> FileID = Job.FileID job, Hash = [], Size = 0, Extension = [],
                            Metadata = None, Err = Some (HasherError err) \<rparr>]
                | Inr meta \<Rightarrow>
                    [Log Info ''processing completed'',
                     Send \<lparr> FileID = Job.FileID job, Hash = Metadata.Hash meta,
                            Size = Metadata.Size meta, Extension = Metadata.Extension meta,
                            Metadata = Some (Extra meta), Err = None \<rparr>])))"

text \<open>The results a run of \<^verbatim>\<open>process\<close> sends, in order.\<close>

fun sent :: "event list \<Rightarrow> Result list" where
  "sent [] = []"
| "sent (Send r # es) = r # sent es"
| "sent (e # es) = sent es"

section \<open>The results consumer\<close>

text \<open>
  The repository is an external collaborator: a call changes its state and fails or
  not. \<^verbatim>\<open>handleResults\<close> ranges over the results channel until it is closed; the list
  is what the channel delivers. Each iteration of the loop gives the list of its effects:
  log records and repository calls.
\<close>

datatype repo_call =
    UpdateStatus string string
  | UpdateMetadata string string int "(string \<rightharpoonup> val) option"

datatype repo_event = RLog level string | Call repo_call

type_synonym 's repository = "'s \<Rightarrow> repo_call \<Rightarrow> string option \<times> 's"

definition handleResult :: "'s repository \<Rightarrow> 's \<Rightarrow> Result \<Rightarrow> repo_event list \<times> 's" where
  "handleResult repo s res =
     (case Err res of
        Some e \<Rightarrow>
          (case repo s (UpdateStatus (Result.FileID res) ''failed'') of
             (Some err, s1) \<Rightarrow>
               ([RLog Error ''processing failed for file'',
                 Call (UpdateStatus (Result.FileID res) ''failed''),
                 RLog Error ''update status to failed''], s1)
           | (None, s1) \<Rightarrow>
               ([RLog Error ''processing failed for file'',
                 Call (UpdateStatus (Result.FileID res) ''failed'')], s1))
      | None \<Rightarrow>
          (case repo s (UpdateMetadata (Result.FileID res) (Result.Hash res)
                          (Result.Size res) (Result.Metadata res)) of
             (Some err, s1) \<Rightarrow>
               ([Call (UpdateMetadata (Result.FileID res) (Result.Hash res)
                         (Result.Size res) (Result.Metadata res)),
                 RLog Error ''update metadata''], s1)
           | (None, s1) \<Rightarrow>
               (case repo s1 (UpdateStatus (Result.FileID res) ''completed'') of
                  (Some err, s2) \<Rightarrow>
                    ([Call (UpdateMetadata (Result.FileID res) (Result.Hash res)
                              (Result.Size res) (Result.Metadata res)),
                      Call (UpdateStatus (Result.FileID res) ''completed''),
                      RLog Error ''update status to completed''], s2)
                | (None, s2) \<Rightarrow>
                    ([Call (UpdateMetadata (Result.FileID res) (Result.Hash res)
                              (Result.Size res) (Result.Metadata res)),
                      Call (UpdateStatus (Result.FileID res) ''completed''),
                      RLog Info ''file processing completed''], s2))))"

fun handleResults :: "'s repository \<Rightarrow> 's \<Rightarrow> Result list \<Rightarrow> repo_event list list \<times> 's" where
  "handleResults repo s [] = ([], s)"
| "handleResults repo s (res # results) =
     (case handleResult repo s res of
        (evs, s') \<Rightarrow>
          (case handleResults repo s' results of
             (rest, s'') \<Rightarrow> (evs # rest, s'')))"

text \<open>The repository calls among the effects of one iteration.\<close>

fun calls :: "repo_event list \<Rightarrow> repo_call list" where
  "calls [] = []"
| "calls (Call c # es) = c # calls es"
| "calls (e # es) = calls es"

section \<open>Package worker: the pool\<close>

subsection \<open>Channels\<close>

text \<open>
  A buffered Go channel: the values in its buffer, oldest first, its capacity, and whether
  it is closed. An operation proceeds (\<open>Next\<close>), blocks (\<open>Blocked\<close>) or panics
  (\<open>Panic\<close>): a send on a closed channel and the close of a closed channel panic, a
  receive on a closed and empty channel yields no value (\<^verbatim>\<open>ok = false\<close>).
  A channel of capacity 0 has no buffer, and a send on it proceeds only when a receiver
  waits. The pool makes such channels only when it starts no worker: then nothing receives
  from the jobs channel, where a send blocks, and nothing sends on the results channel.
\<close>

record 'a chan =
  buf :: "'a list"
  cap :: nat
  closed :: bool

datatype 'a outcome = Blocked | Panic | Next 'a

definition make_chan :: "int \<Rightarrow> 'a chan outcome" where
  "make_chan n = (if n < 0 then Panic else Next \<lparr> buf = [], cap = nat n, closed = False \<rparr>)"

definition send :: "'a chan \<Rightarrow> 'a \<Rightarrow> 'a chan outcome" where
  "send c v =
     (if closed c then Panic
      else if length (buf c) < cap c then Next (c \<lparr> buf := buf c @ [v] \<rparr>)
      else Blocked)"

definition recv :: "'a chan \<Rightarrow> ('a option \<times> 'a chan) outcome" where
  "recv c =
     (case buf c of
        v # vs \<Rightarrow> Next (Some v, c \<lparr> buf := vs \<rparr>)
      | [] \<Rightarrow> if closed c then Next (None, c) else Blocked)"

definition close :: "'a chan \<Rightarrow> 'a chan outcome" where
  "close c = (if closed c then Panic else Next (c \<lparr> closed := True \<rparr>))"

subsection \<open>The pool and its constructor\<close>

text \<open>
  The struct \<^verbatim>\<open>Pool\<close>: \<open>wg\<close> is the counter of the wait group, \<open>ctx_done\<close> says
  whether the pool's context is cancelled. The field \<^verbatim>\<open>cancel\<close> is the only way to
  cancel that context, and no code of the package calls it. The logger is left out.
\<close>

record Pool =
  workers :: "64 word"
  jobs :: "Job chan"
  results :: "Result chan"
  wg :: nat
  ctx_done :: bool

text \<open>
  \<^verbatim>\<open>NewPool\<close>. The worker count is a Go \<^verbatim>\<open>int\<close>, a signed word of 64 bits: the
  product \<^verbatim>\<open>workers*2\<close> wraps around, and \<^verbatim>\<open>make\<close> panics on a negative size.
\<close>

definition NewPool :: "64 word \<Rightarrow> Pool outcome" where
  "NewPool n =
     (case make_chan (sint (n * 2)) of
        Next j \<Rightarrow>
          (case make_chan (sint (n * 2)) of
             Next r \<Rightarrow> Next \<lparr> workers = n, jobs = j, results = r, wg = 0, ctx_done = False \<rparr>
           | Blocked \<Rightarrow> Blocked
           | Panic \<Rightarrow> Panic)
      | Blocked \<Rightarrow> Blocked
      | Panic \<Rightarrow> Panic)"

subsection \<open>The goroutines of a running pool\<close>

text \<open>
  The program is the pool, its worker goroutines, the caller of \<^verbatim>\<open>Shutdown\<close> and the
  results consumer, each with the place it has reached:
  \<^item> a worker is in its loop, with the results its call of \<^verbatim>\<open>process\<close> has still to
    send (none: it is at the \<^verbatim>\<open>select\<close>), or it has returned;
  \<^item> \<^verbatim>\<open>Shutdown\<close> is not called yet, waits in \<^verbatim>\<open>p.wg.Wait()\<close> after it has
    closed the jobs channel, or has returned;
  \<^item> the consumer ranges over the results channel or has seen it closed.

  Three histories are recorded beside: the jobs for which \<^verbatim>\<open>Submit\<close> returned true,
  the results sent on the results channel and the results the consumer received, each in
  order.
\<close>

datatype worker_pc = Running "Result list" | Exited

datatype shutdown_pc = NotCalled | Waiting | Returned

record system =
  pool :: Pool
  worker_pcs :: "worker_pc list"
  shutdown :: shutdown_pc
  consumer_done :: bool
  accepted :: "Job list"
  emitted :: "Result list"
  consumed :: "Result list"

text \<open>\<^verbatim>\<open>Start\<close> on a new pool, with the consumer of \<^verbatim>\<open>main\<close> ranging over the
  results: one goroutine per worker, each counted in the wait group.\<close>

definition Start :: "Pool \<Rightarrow> system" where
  "Start p =
     \<lparr> pool = p \<lparr> wg := wg p + nat (sint (workers p)) \<rparr>,
       worker_pcs = replicate (nat (sint (workers p))) (Running []),
       shutdown = NotCalled, consumer_done = False,
       accepted = [], emitted = [], consumed = [] \<rparr>"

text \<open>
  The steps. A \<^verbatim>\<open>select\<close> takes any of its cases that can proceed, so each case is a
  step of its own.

  \<^verbatim>\<open>Submit\<close>, case \<^verbatim>\<open>p.jobs <- job\<close>: returns true.
\<close>

definition submit_send :: "Job \<Rightarrow> system \<Rightarrow> system outcome" where
  "submit_send job s =
     (case send (jobs (pool s)) job of
        Next c \<Rightarrow> Next (s \<lparr> pool := (pool s) \<lparr> jobs := c \<rparr>, accepted := accepted s @ [job] \<rparr>)
      | Blocked \<Rightarrow> Blocked
      | Panic \<Rightarrow> Panic)"

text \<open>\<^verbatim>\<open>Submit\<close>, case \<^verbatim>\<open><-p.ctx.Done()\<close>: returns false, nothing is enqueued.\<close>

definition submit_done :: "Job \<Rightarrow> system \<Rightarrow> system outcome" where
  "submit_done job s = (if ctx_done (pool s) then Next s else Blocked)"

text \<open>The deferred \<^verbatim>\<open>p.wg.Done()\<close> of a worker that returns; a negative counter
  panics.\<close>

definition worker_exit :: "nat \<Rightarrow> system \<Rightarrow> system outcome" where
  "worker_exit i s =
     (if wg (pool s) = 0 then Panic
      else Next (s \<lparr> pool := (pool s) \<lparr> wg := wg (pool s) - 1 \<rparr>,
                    worker_pcs := (worker_pcs s) [i := Exited] \<rparr>))"

text \<open>
  Worker \<open>i\<close>. In \<^verbatim>\<open>process\<close> it sends its next result, blocking while the results
  channel is full. At the \<^verbatim>\<open>select\<close>, case \<^verbatim>\<open>job, ok := <-p.jobs\<close>: with a job it
  calls \<^verbatim>\<open>process\<close>, whose sends are then pending; on the closed and empty channel it
  returns.
\<close>

definition worker_step :: "lib \<Rightarrow> filesystem \<Rightarrow> filesystem \<Rightarrow> nat \<Rightarrow> system \<Rightarrow> system outcome" where
  "worker_step L fs fs' i s =
     (if length (worker_pcs s) \<le> i then Blocked
      else case worker_pcs s ! i of
        Exited \<Rightarrow> Blocked
      | Running (r # rs) \<Rightarrow>
          (case send (results (pool s)) r of
             Next c \<Rightarrow>
               Next (s \<lparr> pool := (pool s) \<lparr> results := c \<rparr>,
                         worker_pcs := (worker_pcs s) [i := Running rs],
                         emitted := emitted s @ [r] \<rparr>)
           | Blocked \<Rightarrow> Blocked
           | Panic \<Rightarrow> Panic)
      | Running [] \<Rightarrow>
          (case recv (jobs (pool s)) of
             Next (Some job, c) \<Rightarrow>
               Next (s \<lparr> pool := (pool s) \<lparr> jobs := c \<rparr>,
                         worker_pcs := (worker_pcs s)
                           [i := Running (sent (process L fs fs' (int i) job))] \<rparr>)
           | Next (None, c) \<Rightarrow> worker_exit i s
           | Blocked \<Rightarrow> Blocked
           | Panic \<Rightarrow> Panic))"

text \<open>Worker \<open>i\<close> at the \<^verbatim>\<open>select\<close>, case \<^verbatim>\<open><-p.ctx.Done()\<close>: it returns.\<close>

definition worker_done :: "nat \<Rightarrow> system \<Rightarrow> system outcome" where
  "worker_done i s =
     (if length (worker_pcs s) \<le> i then Blocked
      else case worker_pcs s ! i of
        Running [] \<Rightarrow> if ctx_done (pool s) then worker_exit i s else Blocked
      | Running (r # rs) \<Rightarrow> Blocked
      | Exited \<Rightarrow> Blocked)"

text \<open>\<^verbatim>\<open>Shutdown\<close>: \<^verbatim>\<open>close(p.jobs)\<close>, then \<^verbatim>\<open>p.wg.Wait()\<close>, which returns when the
  counter is 0, then \<^verbatim>\<open>close(p.results)\<close>.\<close>

definition shutdown_step :: "system \<Rightarrow> system outcome" where
  "shutdown_step s =
     (case shutdown s of
        NotCalled \<Rightarrow>
          (case close (jobs (pool s)) of
             Next c \<Rightarrow> Next (s \<lparr> pool := (pool s) \<lparr> jobs := c \<rparr>, shutdown := Waiting \<rparr>)
           | Blocked \<Rightarrow> Blocked
           | Panic \<Rightarrow> Panic)
      | Waiting \<Rightarrow>
          if wg (pool s) = 0
            then (case close (results (pool s)) of
                    Next c \<Rightarrow> Next (s \<lparr> pool := (pool s) \<lparr> results := c \<rparr>, shutdown := Returned \<rparr>)
                  | Blocked \<Rightarrow> Blocked
                  | Panic \<Rightarrow> Panic)
          else Blocked
      | Returned \<Rightarrow> Blocked)"

text \<open>The consumer, \<^verbatim>\<open>for res := range results\<close>: it receives the next result, or sees
  the channel closed and empty and leaves the loop.\<close>

definition consumer_step :: "system \<Rightarrow> system outcome" where
  "consumer_step s =
     (if consumer_done s then Blocked
      else case recv (results (pool s)) of
        Next (Some r, c) \<Rightarrow>
          Next (s \<lparr> pool := (pool s) \<lparr> results := c \<rparr>, consumed := consumed s @ [r] \<rparr>)
      | Next (None, c) \<Rightarrow> Next (s \<lparr> consumer_done := True \<rparr>)
      | Blocked \<Rightarrow> Blocked
      | Panic \<Rightarrow> Panic)"

text \<open>What the scheduler picks next, and the step it gives.\<close>

datatype action =
    SubmitSend Job
  | SubmitDone Job
  | WorkerStep nat
  | WorkerDone nat
  | ShutdownStep
  | ConsumerStep

fun step :: "lib \<Rightarrow> filesystem \<Rightarrow> filesystem \<Rightarrow> action \<Rightarrow> system \<Rightarrow> system outcome" where
  "step L fs fs' (SubmitSend job) s = submit_send job s"
| "step L fs fs' (SubmitDone job) s = submit_done job s"
| "step L fs fs' (WorkerStep i) s = worker_step L fs fs' i s"
| "step L fs fs' (WorkerDone i) s = worker_done i s"
| "step L fs fs' ShutdownStep s = shutdown_step s"
| "step L fs fs' ConsumerStep s = consumer_step s"

text \<open>
  A schedule is the list of the scheduler's picks. A pick that is blocked leaves the
  program as it is; a panic ends the program.
\<close>

fun run :: "lib \<Rightarrow> filesystem \<Rightarrow> filesystem \<Rightarrow> action list \<Rightarrow> system \<Rightarrow> system outcome" where
  "run L fs fs' [] s = Next s"
| "run L fs fs' (a # as) s =
     (case step L fs fs' a s of
        Next s' \<Rightarrow> run L fs fs' as s'
      | Blocked \<Rightarrow> run L fs fs' as s
      | Panic \<Rightarrow> Panic)"

text \<open>
  Graceful use of the pool: once \<^verbatim>\<open>Shutdown\<close> has been called, no caller calls
  \<^verbatim>\<open>Submit\<close> any more.
\<close>

fun is_submit :: "action \<Rightarrow> bool" where
  "is_submit (SubmitSend job) = True"
| "is_submit (SubmitDone job) = True"
| "is_submit a = False"

fun no_submit :: "action list \<Rightarrow> bool" where
  "no_submit [] = True"
| "no_submit (a # as) = (if is_submit a then False else no_submit as)"

fun graceful :: "action list \<Rightarrow> bool" where
  "graceful [] = True"
| "graceful (ShutdownStep # as) = no_submit as"
| "graceful (a # as) = graceful as"

text \<open>The results that the calls of \<^verbatim>\<open>process\<close> under way have still to send, and the
  workers that have not returned.\<close>

fun pending :: "worker_pc \<Rightarrow> Result list" where
  "pending (Running rs) = rs"
| "pending Exited = []"

fun live :: "worker_pc \<Rightarrow> bool" where
  "live (Running rs) = True"
| "live Exited = False"

definition in_flight :: "system \<Rightarrow> Result list" where
  "in_flight s = concat (map pending (worker_pcs s))"

text \<open>
  The work left: a queued job is still to be received, its result sent and consumed; a
  pending result is to be sent and consumed; a result in the channel is to be consumed;
  each live worker is to return; \<^verbatim>\<open>Shutdown\<close> and the consumer are to finish.
\<close>

definition remaining :: "system \<Rightarrow> nat" where
  "remaining s =
     3 * length (buf (jobs (pool s))) + 2 * length (in_flight s)
       + length (buf (results (pool s))) + wg (pool s)
       + (case shutdown s of NotCalled \<Rightarrow> 2 | Waiting \<Rightarrow> 1 | Returned \<Rightarrow> 0)
       + (if consumer_done s then 0 else 1)"

text \<open>
  The invariant of the running pool. The pool's context is never cancelled; the wait group
  counts the workers that have not returned; both channels have twice as many places as
  there are workers; the jobs channel is closed exactly when \<^verbatim>\<open>Shutdown\<close> has been
  called and the results channel exactly when it has returned, which it does only with a
  wait group at 0; a worker has returned only on the closed and empty jobs channel; every
  accepted job is queued, or has its result pending in a worker or sent; and the results
  sent are those the consumer has received followed by those in the channel.
\<close>

definition pool_inv :: "system \<Rightarrow> bool" where
  "pool_inv s =
     (\<not> ctx_done (pool s)
      \<and> wg (pool s) = length (filter live (worker_pcs s))
      \<and> cap (jobs (pool s)) = 2 * length (worker_pcs s)
      \<and> cap (results (pool s)) = 2 * length (worker_pcs s)
      \<and> length (buf (jobs (pool s))) \<le> cap (jobs (pool s))
      \<and> (closed (jobs (pool s)) \<longleftrightarrow> shutdown s \<noteq> NotCalled)
      \<and> (closed (results (pool s)) \<longleftrightarrow> shutdown s = Returned)
      \<and> (shutdown s = Returned \<longrightarrow> wg (pool s) = 0)
      \<and> (Exited \<in> set (worker_pcs s) \<longrightarrow> buf (jobs (pool s)) = [] \<and> closed (jobs (pool s)))
      \<and> mset (map Job.FileID (accepted s))
          = mset (map Job.FileID (buf (jobs (pool s))))
            + mset (map Result.FileID (in_flight s))
            + mset (map Result.FileID (emitted s))
      \<and> emitted s = consumed s @ buf (results (pool s))
      \<and> (consumer_done s \<longrightarrow> closed (results (pool s)) \<and> buf (results (pool s)) = []))"

subsection \<open>The constructor as the specification words it\<close>

text \<open>
  The specification's pool is made from a configuration of three parameters: the worker
  count, the capacity of the job queue and the capacity of the result queue.
  \<open>NewPoolSpec\<close> follows these words, to be compared with \<open>NewPool\<close>.
\<close>

record config =
  worker_count :: "64 word"
  job_queue_capacity :: nat
  result_queue_capacity :: nat

definition NewPoolSpec :: "config \<Rightarrow> Pool outcome" where
  "NewPoolSpec c =
     Next \<lparr> workers = worker_count c,
            jobs = \<lparr> buf = [], cap = job_queue_capacity c, closed = False \<rparr>,
            results = \<lparr> buf = [], cap = result_queue_capacity c, closed = False \<rparr>,
            wg = 0, ctx_done = False \<rparr>"

section \<open>Examples used to instantiate the theorems\<close>

text \<open>
  A library instance for the examples: every content is classified as the given type,
  the digest is a stand-in (the bytes reversed), and no image decodes.
\<close>

definition example_lib :: "string \<Rightarrow> lib" where
  "example_lib mime =
     \<lparr> DetectContentType = (\<lambda>head. mime), Sum256 = rev,
       DecodeConfig = (\<lambda>bs. Inl ErrFormat) \<rparr>"

text \<open>A job whose context is cancelled when it is dispatched, and a job with no context.\<close>

definition cancelled_job :: Job where
  "cancelled_job =
     \<lparr> Ctx = Some \<lparr> err_before = Some Canceled, err_after = Some Canceled \<rparr>,
       FileID = ''f1'', FilePath = ''data/f1.txt'' \<rparr>"

definition nil_ctx_job :: Job where
  "nil_ctx_job = \<lparr> Ctx = None, FileID = ''f2'', FilePath = ''data/f2.bin'' \<rparr>"

text \<open>Three text files: one line of 64 KiB without a newline, a short line followed by such
  a line, and three lines of ten words.\<close>

definition long_line :: "byte list" where
  "long_line = replicate (64 * 1024) (CHR ''a'')"

definition partly_long :: "byte list" where
  "partly_long = ''ok'' @ [CHR 0x0A] @ long_line"

definition text_fixture :: "byte list" where
  "text_fixture = ''alpha beta gamma delta'' @ [CHR 0x0A] @ ''epsilon zeta eta'' @ [CHR 0x0A]
      @ ''theta iota kappa'' @ [CHR 0x0A]"

text \<open>The pool of one worker, one job with the background context, and a schedule that
  submits the job, lets the worker process it, shuts the pool down and drains the results.\<close>

definition pool1 :: Pool where
  "pool1 = \<lparr> workers = 1, jobs = \<lparr> buf = [], cap = 2, closed = False \<rparr>,
             results = \<lparr> buf = [], cap = 2, closed = False \<rparr>, wg = 0, ctx_done = False \<rparr>"

definition job1 :: Job where
  "job1 = \<lparr> Ctx = Some Background, FileID = ''id1'', FilePath = ''data/id1.txt'' \<rparr>"

definition schedule1 :: "action list" where
  "schedule1 = [SubmitSend job1, WorkerStep 0, WorkerStep 0, ShutdownStep, WorkerStep 0,
                ShutdownStep, ConsumerStep, ConsumerStep]"

section \<open>The analyzer hashes the whole content\<close>

lemma Copy_regular:
  "content f = Regular bs \<Longrightarrow>
     \<exists>f'. Copy h f written = Inr (h @ drop (offset f) bs, written + int (length bs - offset f), f')"
proof (induction h f written rule: Copy.induct)
  case (1 h f written)
  show ?case
  proof (cases "length bs \<le> offset f")
    case True
    with "1.prems" have "Read f (32 * 1024) = ([], Some EOF, f)"
      by (simp add: Read_def)
    with True show ?thesis
      by (subst Copy.simps) simp
  next
    case False
    define k where "k = min (32 * 1024) (length bs - offset f)"
    define f' where "f' = f \<lparr> offset := offset f + k \<rparr>"
    define chunk where "chunk = take (32 * 1024) (drop (offset f) bs)"
    from False "1.prems" have rd: "Read f (32 * 1024) = (chunk, None, f')"
      by (simp add: Read_def chunk_def f'_def k_def)
    from False have ne: "chunk \<noteq> []"
      by (simp add: chunk_def)
    have len: "length chunk = k"
      by (simp add: chunk_def k_def min.commute)
    have c': "content f' = Regular bs"
      using "1.prems" by (simp add: f'_def)
    have "\<exists>f''. Copy (h @ chunk) f' (written + int (length chunk)) =
        Inr ((h @ chunk) @ drop (offset f') bs, (written + int (length chunk)) + int (length bs - offset f'), f'')"
      using "1.IH" [of chunk "(None, f')" None f' "h @ chunk" "written + int (length chunk)"] rd ne c'
      by simp
    then obtain f'' where ih: "Copy (h @ chunk) f' (written + int (length chunk)) =
        Inr ((h @ chunk) @ drop (offset f') bs, (written + int (length chunk)) + int (length bs - offset f'), f'')"
      by blast
    have d: "chunk @ drop (offset f') bs = drop (offset f) bs"
      by (simp add: chunk_def f'_def k_def take_add [symmetric] min_def)
         (metis append_take_drop_id drop_drop add.commute)
    have l: "int (length chunk) + int (length bs - offset f') = int (length bs - offset f)"
      using False by (simp add: len f'_def k_def)
    from rd ne ih d l show ?thesis
      by (subst Copy.simps) (simp add: add.assoc)
  qed
qed

text \<open>The peek at the head of a regular file, then the seek back: the handle is at the start again.\<close>

lemma peek_then_seek:
  assumes "content f = Regular bs" "offset f = 0"
  shows "\<exists>er f1. Read f 512 = (take 512 bs, er, f1) \<and> (er = None \<or> er = Some EOF)
           \<and> Seek f1 0 = Inr f"
  using assms by (cases f) (auto simp: Read_def Seek_def)

lemma mime_kept_image: "analyzeImage L fs' p = Inr m \<Longrightarrow> ([''mime_type'' \<mapsto> v] ++ m) ''mime_type'' = Some v"
  by (auto simp: analyzeImage_def map_add_def split: sum.splits node.splits option.splits)

lemma mime_kept_text: "analyzeText fs' p = Inr m \<Longrightarrow> ([''mime_type'' \<mapsto> v] ++ m) ''mime_type'' = Some v"
  by (auto simp: analyzeText_def map_add_def split: sum.splits node.splits option.splits prod.splits)

lemma ComputeMetadata_regular:
  assumes "fs filePath = Some (Regular bs)"
  shows "ComputeMetadata L fs fs' filePath =
     Inr \<lparr> Metadata.Hash = EncodeToString (Sum256 L bs), Metadata.Size = int (length bs),
           Metadata.Extension = Ext filePath,
           Extra =
             (let mimeType = DetectContentType L (take 512 bs);
                  extra = [''mime_type'' \<mapsto> Str mimeType] in
              if HasPrefix mimeType ''image/''
                then (case analyzeImage L fs' filePath of Inr imgArgs \<Rightarrow> extra ++ imgArgs | Inl e \<Rightarrow> extra)
              else if HasPrefix mimeType ''text/''
                then (case analyzeText fs' filePath of Inr txtArgs \<Rightarrow> extra ++ txtArgs | Inl e \<Rightarrow> extra)
              else extra) \<rparr>"
proof -
  define f where "f = \<lparr> content = Regular bs, offset = 0 \<rparr>"
  have op: "Open fs filePath = Inr f"
    using assms by (simp add: Open_def f_def)
  obtain er f1 where rd: "Read f 512 = (take 512 bs, er, f1)" and er: "er = None \<or> er = Some EOF"
    and sk: "Seek f1 0 = Inr f"
    using peek_then_seek [of f bs] by (auto simp: f_def)
  obtain f3 where cp: "Copy [] f 0 = Inr (bs, int (length bs), f3)"
    using Copy_regular [of f bs "[]" 0] by (auto simp: f_def)
  from er show ?thesis
    by (auto simp: ComputeMetadata_def op rd sk cp Let_def)
qed

text \<open>
  Claim C3. For every regular file, the peek at the first 512 bytes does not consume what
  the hash needs: the seek puts the handle back where it was opened, at offset 0, the
  analyzer succeeds, its digest is the hex-encoded SHA-256 of the whole content and its
  size is the number of bytes of the content (the MIME type comes from the first 512
  bytes).
\<close>

theorem C3_hash_and_size_cover_whole_content:
  assumes "fs filePath = Some (Regular bs)"
  shows "\<exists>f er f1 m. Open fs filePath = Inr f
           \<and> Read f 512 = (take 512 bs, er, f1) \<and> Seek f1 0 = Inr f \<and> offset f = 0
           \<and> ComputeMetadata L fs fs' filePath = Inr m
           \<and> Metadata.Hash m = EncodeToString (Sum256 L bs)
           \<and> Metadata.Size m = int (length bs)
           \<and> Extra m ''mime_type'' = Some (Str (DetectContentType L (take 512 bs)))"
proof -
  define f where "f = \<lparr> content = Regular bs, offset = 0 \<rparr>"
  have op: "Open fs filePath = Inr f \<and> offset f = 0"
    using assms by (simp add: Open_def f_def)
  obtain er f1 where rd: "Read f 512 = (take 512 bs, er, f1)" "Seek f1 0 = Inr f"
    using peek_then_seek [of f bs] by (auto simp: f_def)
  have "\<exists>m. ComputeMetadata L fs fs' filePath = Inr m
           \<and> Metadata.Hash m = EncodeToString (Sum256 L bs)
           \<and> Metadata.Size m = int (length bs)
           \<and> Extra m ''mime_type'' = Some (Str (DetectContentType L (take 512 bs)))"
    using ComputeMetadata_regular [of fs filePath bs L fs'] assms
    by (auto simp: Let_def mime_kept_image mime_kept_text split: sum.splits)
  with op rd show ?thesis
    by blast
qed

theorem C3_witness:
  "\<exists>m. ComputeMetadata (example_lib ''application/octet-stream'')
          [''data/a.bin'' \<mapsto> Regular ''abc''] Map.empty ''data/a.bin'' = Inr m
       \<and> Metadata.Hash m = ''636261''
       \<and> Metadata.Size m = 3
       \<and> Extra m ''mime_type'' = Some (Str ''application/octet-stream'')"
  using C3_hash_and_size_cover_whole_content
    [of "[''data/a.bin'' \<mapsto> Regular ''abc'']" "''data/a.bin''" "''abc''"
        "example_lib ''application/octet-stream''" Map.empty]
  by (auto simp: example_lib_def hextable_def)

section \<open>Category enrichment is best effort\<close>

text \<open>
  For a regular file whose category analyzer returns an error (an image that does not
  decode, a text file that cannot be opened again), and for a file of any other category,
  the analyzer still succeeds, with the digest and size of the content and a metadata map
  that holds the MIME type only.
\<close>

lemma enrichment_is_best_effort:
  assumes "fs filePath = Some (Regular bs)"
    and "mimeType = DetectContentType L (take 512 bs)"
    and "(HasPrefix mimeType ''image/'' \<and> isl (analyzeImage L fs' filePath))
       \<or> (\<not> HasPrefix mimeType ''image/'' \<and> HasPrefix mimeType ''text/''
            \<and> isl (analyzeText fs' filePath))
       \<or> (\<not> HasPrefix mimeType ''image/'' \<and> \<not> HasPrefix mimeType ''text/'')"
  shows "ComputeMetadata L fs fs' filePath =
           Inr \<lparr> Metadata.Hash = EncodeToString (Sum256 L bs),
                 Metadata.Size = int (length bs),
                 Metadata.Extension = Ext filePath,
                 Extra = [''mime_type'' \<mapsto> Str mimeType] \<rparr>"
  using ComputeMetadata_regular [of fs filePath bs L fs'] assms
  by (auto simp: Let_def isl_def)

lemma enrichment_is_best_effort_examples:
  "ComputeMetadata (example_lib ''image/png'') [''data/a.png'' \<mapsto> Regular ''abc'']
       [''data/a.png'' \<mapsto> Regular ''abc''] ''data/a.png''
     = Inr \<lparr> Metadata.Hash = ''636261'', Metadata.Size = 3, Metadata.Extension = ''.png'',
             Extra = [''mime_type'' \<mapsto> Str ''image/png''] \<rparr>
   \<and> ComputeMetadata (example_lib ''text/plain'') [''data/a.txt'' \<mapsto> Regular ''abc'']
       Map.empty ''data/a.txt''
     = Inr \<lparr> Metadata.Hash = ''636261'', Metadata.Size = 3, Metadata.Extension = ''.txt'',
             Extra = [''mime_type'' \<mapsto> Str ''text/plain''] \<rparr>
   \<and> ComputeMetadata (example_lib ''application/pdf'') [''data/a.pdf'' \<mapsto> Regular ''abc'']
       [''data/a.pdf'' \<mapsto> Regular ''abc''] ''data/a.pdf''
     = Inr \<lparr> Metadata.Hash = ''636261'', Metadata.Size = 3, Metadata.Extension = ''.pdf'',
             Extra = [''mime_type'' \<mapsto> Str ''application/pdf''] \<rparr>"
proof -
  have image_fails: "isl (analyzeImage (example_lib ''image/png'') [''data/a.png'' \<mapsto> Regular ''abc''] ''data/a.png'')"
    by (simp add: analyzeImage_def Open_def example_lib_def)
  have text_fails: "isl (analyzeText Map.empty ''data/a.txt'')"
    by (simp add: analyzeText_def Open_def)
  have 1: "ComputeMetadata (example_lib ''image/png'') [''data/a.png'' \<mapsto> Regular ''abc'']
       [''data/a.png'' \<mapsto> Regular ''abc''] ''data/a.png''
     = Inr \<lparr> Metadata.Hash = ''636261'', Metadata.Size = 3, Metadata.Extension = ''.png'',
             Extra = [''mime_type'' \<mapsto> Str ''image/png''] \<rparr>"
    using enrichment_is_best_effort
      [of "[''data/a.png'' \<mapsto> Regular ''abc'']" "''data/a.png''" "''abc''" "''image/png''"
          "example_lib ''image/png''" "[''data/a.png'' \<mapsto> Regular ''abc'']"] image_fails
    by (simp add: example_lib_def hextable_def HasPrefix_def Ext_def)
  have 2: "ComputeMetadata (example_lib ''text/plain'') [''data/a.txt'' \<mapsto> Regular ''abc'']
       Map.empty ''data/a.txt''
     = Inr \<lparr> Metadata.Hash = ''636261'', Metadata.Size = 3, Metadata.Extension = ''.txt'',
             Extra = [''mime_type'' \<mapsto> Str ''text/plain''] \<rparr>"
    using enrichment_is_best_effort
      [of "[''data/a.txt'' \<mapsto> Regular ''abc'']" "''data/a.txt''" "''abc''" "''text/plain''"
          "example_lib ''text/plain''" Map.empty] text_fails
    by (simp add: example_lib_def hextable_def HasPrefix_def Ext_def)
  have 3: "ComputeMetadata (example_lib ''application/pdf'') [''data/a.pdf'' \<mapsto> Regular ''abc'']
       [''data/a.pdf'' \<mapsto> Regular ''abc''] ''data/a.pdf''
     = Inr \<lparr> Metadata.Hash = ''636261'', Metadata.Size = 3, Metadata.Extension = ''.pdf'',
             Extra = [''mime_type'' \<mapsto> Str ''application/pdf''] \<rparr>"
    using enrichment_is_best_effort
      [of "[''data/a.pdf'' \<mapsto> Regular ''abc'']" "''data/a.pdf''" "''abc''" "''application/pdf''"
          "example_lib ''application/pdf''" "[''data/a.pdf'' \<mapsto> Regular ''abc'']"]
    by (simp add: example_lib_def hextable_def HasPrefix_def Ext_def)
  from 1 2 3 show ?thesis by blast
qed

section \<open>Processing one job\<close>

text \<open>
  Claim C4. A job whose context is already cancelled when it is dispatched gives exactly one
  effect, a failure result for the job's id that carries the cancellation error; the
  analyzer is not called.
\<close>

theorem C4_cancelled_before_dispatch:
  assumes "Ctx job = Some c" "err_before c = Some e"
  shows "process L fs fs' workerID job =
           [Send \<lparr> FileID = Job.FileID job, Hash = [], Size = 0, Extension = [],
                   Metadata = None, Err = Some (CancelledBeforeProcessing e) \<rparr>]
         \<and> Analyze (FilePath job) \<notin> set (process L fs fs' workerID job)"
  using assms by (simp add: process_def)

theorem C4_witness:
  "process (example_lib ''text/plain'') [''data/f1.txt'' \<mapsto> Regular ''abc''] Map.empty 0 cancelled_job =
     [Send \<lparr> FileID = ''f1'', Hash = [], Size = 0, Extension = [],
             Metadata = None, Err = Some (CancelledBeforeProcessing Canceled) \<rparr>]
   \<and> Analyze ''data/f1.txt'' \<notin> set (process (example_lib ''text/plain'') [''data/f1.txt'' \<mapsto> Regular ''abc''] Map.empty 0 cancelled_job)"
  using C4_cancelled_before_dispatch
    [of cancelled_job "\<lparr> err_before = Some Canceled, err_after = Some Canceled \<rparr>" Canceled
        "example_lib ''text/plain''" "[''data/f1.txt'' \<mapsto> Regular ''abc'']" Map.empty 0]
  by (simp add: cancelled_job_def)

text \<open>
  Claim C9. A job with a nil context is processed under the background context: the
  analyzer is called, exactly one result is sent for the job's id, it is the analyzer's
  success or the analyzer's failure, and it is never a cancellation.
\<close>

theorem C9_nil_context_is_background:
  assumes "Ctx job = None"
  shows "\<exists>r. sent (process L fs fs' workerID job) = [r]
           \<and> Result.FileID r = Job.FileID job
           \<and> (case ComputeMetadata L fs fs' (FilePath job) of
                 Inl err \<Rightarrow> Err r = Some (HasherError err)
               | Inr meta \<Rightarrow> Err r = None \<and> Result.Hash r = Metadata.Hash meta
                    \<and> Result.Size r = Metadata.Size meta
                    \<and> Result.Extension r = Metadata.Extension meta
                    \<and> Result.Metadata r = Some (Extra meta))
           \<and> (\<forall>e. Err r \<noteq> Some (CancelledBeforeProcessing e))
           \<and> (\<forall>e. Err r \<noteq> Some (CancelledDuringProcessing e))
           \<and> Analyze (FilePath job) \<in> set (process L fs fs' workerID job)"
  using assms by (auto simp: process_def Background_def split: sum.splits)

theorem C9_witness:
  "\<exists>r. sent (process (example_lib ''application/octet-stream'') [''data/f2.bin'' \<mapsto> Regular ''abc''] Map.empty 0 nil_ctx_job) = [r]
     \<and> Result.FileID r = ''f2'' \<and> Err r = None \<and> Result.Hash r = ''636261'' \<and> Result.Size r = 3"
proof -
  obtain m where m: "ComputeMetadata (example_lib ''application/octet-stream'')
          [''data/f2.bin'' \<mapsto> Regular ''abc''] Map.empty ''data/f2.bin'' = Inr m"
       "Metadata.Hash m = ''636261''" "Metadata.Size m = 3"
    using ComputeMetadata_regular [of "[''data/f2.bin'' \<mapsto> Regular ''abc'']" "''data/f2.bin''" "''abc''"
        "example_lib ''application/octet-stream''" Map.empty]
    by (simp add: example_lib_def hextable_def)
  from C9_nil_context_is_background
    [of nil_ctx_job "example_lib ''application/octet-stream''" "[''data/f2.bin'' \<mapsto> Regular ''abc'']" Map.empty 0]
    m
  show ?thesis
    by (auto simp: nil_ctx_job_def)
qed

text \<open>
  Claim C10. A result sent with an error carries the job's id and the error only: its hash
  and extension are empty, its size is 0 and its metadata map is nil.
\<close>

theorem C10_failure_result_carries_no_output:
  assumes "r \<in> set (sent (process L fs fs' workerID job))" "Err r \<noteq> None"
  shows "Result.Hash r = [] \<and> Result.Size r = 0 \<and> Result.Extension r = []
           \<and> Result.Metadata r = None \<and> Result.FileID r = Job.FileID job"
  using assms by (auto simp: process_def split: option.splits sum.splits)

theorem C10_witness:
  "\<exists>r. r \<in> set (sent (process (example_lib ''text/plain'') Map.empty Map.empty 0 nil_ctx_job))
      \<and> Err r = Some (HasherError (OpenFileError ErrNotExist))
      \<and> Result.Hash r = [] \<and> Result.Size r = 0 \<and> Result.Extension r = []
      \<and> Result.Metadata r = None \<and> Result.FileID r = ''f2''"
proof -
  define r where "r = \<lparr> FileID = ''f2'', Hash = [], Size = 0, Extension = [],
      Metadata = None, Err = Some (HasherError (OpenFileError ErrNotExist)) \<rparr>"
  have mem: "r \<in> set (sent (process (example_lib ''text/plain'') Map.empty Map.empty 0 nil_ctx_job))"
    by (simp add: process_def nil_ctx_job_def Background_def ComputeMetadata_def Open_def r_def)
  have err: "Err r \<noteq> None"
    by (simp add: r_def)
  from C10_failure_result_carries_no_output [OF mem err] mem
  show ?thesis
    by (auto simp: r_def nil_ctx_job_def intro!: exI [of _ r])
qed

section \<open>The results consumer handles every result on its own\<close>

lemma handleResult_calls:
  "calls (fst (handleResult repo s res)) =
     (case Err res of
        Some e \<Rightarrow> [UpdateStatus (Result.FileID res) ''failed'']
      | None \<Rightarrow>
          (case repo s (UpdateMetadata (Result.FileID res) (Result.Hash res)
                          (Result.Size res) (Result.Metadata res)) of
             (Some err, s1) \<Rightarrow>
               [UpdateMetadata (Result.FileID res) (Result.Hash res)
                  (Result.Size res) (Result.Metadata res)]
           | (None, s1) \<Rightarrow>
               [UpdateMetadata (Result.FileID res) (Result.Hash res)
                  (Result.Size res) (Result.Metadata res),
                UpdateStatus (Result.FileID res) ''completed'']))"
  by (auto simp: handleResult_def split: option.splits prod.splits)

lemma handleResults_iterations:
  "list_all2 (\<lambda>res evs. \<exists>s0. evs = fst (handleResult repo s0 res))
     delivered (fst (handleResults repo s delivered))"
proof (induction delivered arbitrary: s)
  case Nil
  show ?case by simp
next
  case (Cons res delivered)
  obtain evs s' where h: "handleResult repo s res = (evs, s')"
    by (cases "handleResult repo s res")
  obtain rest s'' where r: "handleResults repo s' delivered = (rest, s'')"
    by (cases "handleResults repo s' delivered")
  from Cons.IH [of s'] r have "list_all2 (\<lambda>res evs. \<exists>s0. evs = fst (handleResult repo s0 res)) delivered rest"
    by simp
  moreover from h have "\<exists>s0. evs = fst (handleResult repo s0 res)"
    by (metis fst_conv)
  ultimately show ?case
    by (simp add: h r)
qed

text \<open>
  Claim C7. Whatever the repository answers, the consumer runs one iteration per result of
  the channel, in order. The iteration of a failure result makes exactly one repository
  call, the status update to "failed" for that id (no retry); the iteration of a
  success result updates the metadata for that id and, when that call succeeds, sets the
  status to "completed". A failing call ends its own iteration only.
\<close>

theorem C7_failed_once_and_consumer_continues:
  "list_all2
     (\<lambda>res evs.
        case Err res of
          Some e \<Rightarrow> calls evs = [UpdateStatus (Result.FileID res) ''failed'']
        | None \<Rightarrow>
            calls evs = [UpdateMetadata (Result.FileID res) (Result.Hash res)
                           (Result.Size res) (Result.Metadata res)]
          \<or> calls evs = [UpdateMetadata (Result.FileID res) (Result.Hash res)
                           (Result.Size res) (Result.Metadata res),
                         UpdateStatus (Result.FileID res) ''completed''])
     delivered (fst (handleResults repo s delivered))"
proof (rule list_all2_mono [OF handleResults_iterations])
  fix res :: Result and evs :: "repo_event list"
  assume "\<exists>s0. evs = fst (handleResult repo s0 res)"
  then obtain s0 where "evs = fst (handleResult repo s0 res)" ..
  then show "case Err res of
          Some e \<Rightarrow> calls evs = [UpdateStatus (Result.FileID res) ''failed'']
        | None \<Rightarrow>
            calls evs = [UpdateMetadata (Result.FileID res) (Result.Hash res)
                           (Result.Size res) (Result.Metadata res)]
          \<or> calls evs = [UpdateMetadata (Result.FileID res) (Result.Hash res)
                           (Result.Size res) (Result.Metadata res),
                         UpdateStatus (Result.FileID res) ''completed'']"
    by (auto simp: handleResult_calls split: option.splits prod.splits)
qed

section \<open>The text analyzer\<close>

text \<open>Three lines of ten words are counted as such.\<close>

lemma text_fixture_counts:
  "analyzeText [p \<mapsto> Regular text_fixture] p = Inr [''lines'' \<mapsto> Num 3, ''words'' \<mapsto> Num 10]"
  by (simp add: analyzeText_def Open_def scan_loop.simps Scan_def text_fixture_def MaxScanTokenSize_def
      dropCR_def Fields_def DecodeRune_def IsSpace_def)

lemma Scan_long_line: "Scan long_line = ErrTooLong"
  by (simp add: Scan_def long_line_def MaxScanTokenSize_def)

lemma analyzeText_long_line:
  "analyzeText [p \<mapsto> Regular long_line] p = Inr [''lines'' \<mapsto> Num 0, ''words'' \<mapsto> Num 0]"
  by (simp add: analyzeText_def Open_def scan_loop.simps Scan_long_line)

text \<open>
  Claim C8, at a text file that is one line of 65536 letters: the scanner stops with
  \<^verbatim>\<open>bufio.ErrTooLong\<close> before it yields a token, \<^verbatim>\<open>analyzeText\<close> does not look at
  the scanner's error, and the analyzer reports 0 lines and 0 words for a content of one
  line and one word.
\<close>

theorem C8_long_line_is_not_counted:
  "ComputeMetadata (example_lib ''text/plain; charset=utf-8'')
       [''data/long.txt'' \<mapsto> Regular long_line] [''data/long.txt'' \<mapsto> Regular long_line]
       ''data/long.txt''
     = Inr \<lparr> Metadata.Hash = EncodeToString (rev long_line),
             Metadata.Size = 65536, Metadata.Extension = ''.txt'',
             Extra = [''mime_type'' \<mapsto> Str ''text/plain; charset=utf-8'',
                      ''lines'' \<mapsto> Num 0, ''words'' \<mapsto> Num 0] \<rparr>
   \<and> length long_line = 65536 \<and> set long_line = {CHR ''a''}"
proof -
  have "ComputeMetadata (example_lib ''text/plain; charset=utf-8'')
       [''data/long.txt'' \<mapsto> Regular long_line] [''data/long.txt'' \<mapsto> Regular long_line]
       ''data/long.txt''
     = Inr \<lparr> Metadata.Hash = EncodeToString (rev long_line),
             Metadata.Size = 65536, Metadata.Extension = ''.txt'',
             Extra = [''mime_type'' \<mapsto> Str ''text/plain; charset=utf-8'',
                      ''lines'' \<mapsto> Num 0, ''words'' \<mapsto> Num 0] \<rparr>"
    using ComputeMetadata_regular [of "[''data/long.txt'' \<mapsto> Regular long_line]" "''data/long.txt''"
      long_line "example_lib ''text/plain; charset=utf-8''" "[''data/long.txt'' \<mapsto> Regular long_line]"]
    by (simp add: example_lib_def HasPrefix_def Ext_def analyzeText_long_line)
       (simp add: long_line_def)
  moreover have "length long_line = 65536 \<and> set long_line = {CHR ''a''}"
    by (simp add: long_line_def)
  ultimately show ?thesis by blast
qed

section \<open>A failure inside the text analyzer\<close>

lemma Scan_partly_long: "Scan partly_long = Token ''ok'' long_line"
  by (simp add: Scan_def partly_long_def MaxScanTokenSize_def dropCR_def)

lemma analyzeText_partly_long:
  "analyzeText [p \<mapsto> Regular partly_long] p = Inr [''lines'' \<mapsto> Num 1, ''words'' \<mapsto> Num 1]"
  by (simp add: analyzeText_def Open_def scan_loop.simps Scan_partly_long Scan_long_line
      Fields_def DecodeRune_def IsSpace_def)

text \<open>
  Claim C6, at a text file whose second line is 65536 letters: the scanner of the text
  analyzer yields the first line and then fails with \<^verbatim>\<open>bufio.ErrTooLong\<close>.
  \<^verbatim>\<open>analyzeText\<close> does not read the scanner's error and returns the counts reached so
  far with a nil error, so the analyzer's bundle holds \<open>lines\<close> and \<open>words\<close>
  beside the MIME type: it is not the MIME-only bundle that a failed category analyzer is
  to leave, and that a failed \<^verbatim>\<open>analyzeImage\<close> does leave.
\<close>

theorem C6_scanner_failure_is_not_degraded:
  "Scan partly_long = Token ''ok'' long_line \<and> Scan long_line = ErrTooLong
   \<and> ComputeMetadata (example_lib ''text/plain; charset=utf-8'')
       [''data/partly.txt'' \<mapsto> Regular partly_long] [''data/partly.txt'' \<mapsto> Regular partly_long]
       ''data/partly.txt''
     = Inr \<lparr> Metadata.Hash = EncodeToString (rev partly_long),
             Metadata.Size = 65539, Metadata.Extension = ''.txt'',
             Extra = [''mime_type'' \<mapsto> Str ''text/plain; charset=utf-8'',
                      ''lines'' \<mapsto> Num 1, ''words'' \<mapsto> Num 1] \<rparr>
   \<and> [''mime_type'' \<mapsto> Str ''text/plain; charset=utf-8'',
        ''lines'' \<mapsto> Num 1, ''words'' \<mapsto> Num (1::int)] ''lines''
       \<noteq> [''mime_type'' \<mapsto> Str ''text/plain; charset=utf-8''] ''lines''"
proof -
  have "ComputeMetadata (example_lib ''text/plain; charset=utf-8'')
       [''data/partly.txt'' \<mapsto> Regular partly_long] [''data/partly.txt'' \<mapsto> Regular partly_long]
       ''data/partly.txt''
     = Inr \<lparr> Metadata.Hash = EncodeToString (rev partly_long),
             Metadata.Size = 65539, Metadata.Extension = ''.txt'',
             Extra = [''mime_type'' \<mapsto> Str ''text/plain; charset=utf-8'',
                      ''lines'' \<mapsto> Num 1, ''words'' \<mapsto> Num 1] \<rparr>"
    using ComputeMetadata_regular [of "[''data/partly.txt'' \<mapsto> Regular partly_long]"
      "''data/partly.txt''" partly_long "example_lib ''text/plain; charset=utf-8''"
      "[''data/partly.txt'' \<mapsto> Regular partly_long]"]
    by (simp add: example_lib_def HasPrefix_def Ext_def analyzeText_partly_long)
       (simp add: partly_long_def long_line_def)
  with Scan_partly_long Scan_long_line show ?thesis
    by simp
qed

section \<open>The pool: lists of workers\<close>

lemma process_sends_one:
  "\<exists>r. sent (process L fs fs' w job) = [r] \<and> Result.FileID r = Job.FileID job"
  by (auto simp: process_def split: option.splits sum.splits)

lemma length_concat_update:
  "i < length xs \<Longrightarrow>
     length (concat (map f (xs [i := y]))) + length (f (xs ! i))
       = length (concat (map f xs)) + length (f y)"
proof (induction xs arbitrary: i)
  case Nil
  then show ?case by simp
next
  case (Cons x xs)
  then show ?case by (cases i) auto
qed

lemma mset_concat_update:
  "i < length xs \<Longrightarrow>
     mset (concat (map f (xs [i := y]))) + mset (f (xs ! i))
       = mset (concat (map f xs)) + mset (f y)"
proof (induction xs arbitrary: i)
  case Nil
  then show ?case by simp
next
  case (Cons x xs)
  then show ?case by (cases i) (auto simp: ac_simps)
qed

lemma live_count_exit:
  "i < length xs \<Longrightarrow> live (xs ! i) \<Longrightarrow>
     Suc (length (filter live (xs [i := Exited]))) = length (filter live xs)"
proof (induction xs arbitrary: i)
  case Nil
  then show ?case by simp
next
  case (Cons x xs)
  then show ?case by (cases i) auto
qed

lemma live_count_running:
  "i < length xs \<Longrightarrow> live (xs ! i) \<Longrightarrow>
     length (filter live (xs [i := Running rs])) = length (filter live xs)"
proof (induction xs arbitrary: i)
  case Nil
  then show ?case by simp
next
  case (Cons x xs)
  then show ?case by (cases i) auto
qed

lemma live_count_pos:
  "i < length xs \<Longrightarrow> live (xs ! i) \<Longrightarrow> 0 < length (filter live xs)"
  by (metis filter_empty_conv length_greater_0_conv nth_mem)

lemma no_live_all_exited:
  "length (filter live xs) = 0 \<Longrightarrow> i < length xs \<Longrightarrow> xs ! i = Exited"
  by (metis live_count_pos less_numeral_extra(3) live.elims(3))

lemma no_live_in_flight:
  "length (filter live xs) = 0 \<Longrightarrow> concat (map pending xs) = []"
proof (induction xs)
  case Nil
  then show ?case by simp
next
  case (Cons x xs)
  then show ?case by (cases x) (auto split: if_splits)
qed

section \<open>The pool: every step keeps the invariant\<close>

lemma inv_submit_send:
  "pool_inv s \<Longrightarrow> submit_send job s = Next s' \<Longrightarrow> pool_inv s'"
  by (auto simp: pool_inv_def submit_send_def send_def in_flight_def split: if_splits)

lemma inv_submit_done:
  "pool_inv s \<Longrightarrow> submit_done job s = Next s' \<Longrightarrow> pool_inv s'"
  by (auto simp: pool_inv_def submit_done_def split: if_splits)

lemma inv_shutdown_step:
  "pool_inv s \<Longrightarrow> shutdown_step s = Next s' \<Longrightarrow> pool_inv s'"
  by (auto simp: pool_inv_def shutdown_step_def close_def in_flight_def
      split: if_splits shutdown_pc.splits)

lemma inv_consumer_step:
  "pool_inv s \<Longrightarrow> consumer_step s = Next s' \<Longrightarrow> pool_inv s'"
  by (auto simp: pool_inv_def consumer_step_def recv_def in_flight_def
      split: if_splits list.splits)

lemma set_update_exited:
  "i < length xs \<Longrightarrow> Exited \<in> set (xs [i := Exited])"
  by (metis set_update_memI)

lemma exited_in_update_running:
  "Exited \<in> set (xs [i := Running rs]) \<Longrightarrow> Exited \<in> set xs"
  by (metis in_set_conv_nth length_list_update nth_list_update_eq nth_list_update_neq worker_pc.distinct(1))

lemma inv_worker_exit:
  assumes "pool_inv s" "i < length (worker_pcs s)" "worker_pcs s ! i = Running []"
    "buf (jobs (pool s)) = []" "closed (jobs (pool s))"
    "worker_exit i s = Next s'"
  shows "pool_inv s'"
proof -
  from assms have lv: "live (worker_pcs s ! i)" by simp
  from assms(6) have s': "s' = s \<lparr> pool := (pool s) \<lparr> wg := wg (pool s) - 1 \<rparr>,
                    worker_pcs := (worker_pcs s) [i := Exited] \<rparr>"
    by (auto simp: worker_exit_def split: if_splits)
  have cnt: "Suc (length (filter live ((worker_pcs s) [i := Exited]))) = length (filter live (worker_pcs s))"
    using live_count_exit [OF assms(2) lv] .
  have fl: "mset (concat (map pending ((worker_pcs s) [i := Exited]))) = mset (concat (map pending (worker_pcs s)))"
    using mset_concat_update [OF assms(2), of pending Exited] assms(3) by simp
  then have fl': "mset (map Result.FileID (concat (map pending ((worker_pcs s) [i := Exited]))))
      = mset (map Result.FileID (concat (map pending (worker_pcs s))))"
    by (metis mset_map)
  from assms(1,4,5) cnt fl' show ?thesis
    unfolding s' pool_inv_def in_flight_def by auto
qed

lemma inv_worker_done:
  "pool_inv s \<Longrightarrow> worker_done i s = Next s' \<Longrightarrow> pool_inv s'"
  by (auto simp: pool_inv_def worker_done_def split: if_splits worker_pc.splits list.splits)

lemma inv_worker_send:
  assumes "pool_inv s" "i < length (worker_pcs s)" "worker_pcs s ! i = Running (r # rs)"
    "send (results (pool s)) r = Next c"
  shows "pool_inv (s \<lparr> pool := (pool s) \<lparr> results := c \<rparr>,
                         worker_pcs := (worker_pcs s) [i := Running rs],
                         emitted := emitted s @ [r] \<rparr>)"
proof -
  from assms have lv: "live (worker_pcs s ! i)" by simp
  from assms(4) have c: "c = (results (pool s)) \<lparr> buf := buf (results (pool s)) @ [r] \<rparr>"
    and nc: "\<not> closed (results (pool s))"
    by (auto simp: send_def split: if_splits)
  have cnt: "length (filter live ((worker_pcs s) [i := Running rs])) = length (filter live (worker_pcs s))"
    using live_count_running [OF assms(2) lv] .
  have "mset (concat (map pending ((worker_pcs s) [i := Running rs]))) + mset (r # rs)
      = mset (concat (map pending (worker_pcs s))) + mset rs"
    using mset_concat_update [OF assms(2), of pending "Running rs"] assms(3) by simp
  then have "mset (concat (map pending (worker_pcs s)))
      = mset (concat (map pending ((worker_pcs s) [i := Running rs]))) + {#r#}"
    by simp
  then have fl: "mset (map Result.FileID (concat (map pending (worker_pcs s))))
      = mset (map Result.FileID (concat (map pending ((worker_pcs s) [i := Running rs]))))
        + {#Result.FileID r#}"
    by (metis (no_types, lifting) image_mset_single image_mset_union mset_map)
  have ex: "Exited \<in> set ((worker_pcs s) [i := Running rs]) \<Longrightarrow> Exited \<in> set (worker_pcs s)"
    by (rule exited_in_update_running)
  from assms(1) cnt fl ex nc show ?thesis
    unfolding c pool_inv_def in_flight_def by auto
qed

lemma inv_worker_recv:
  assumes "pool_inv s" "i < length (worker_pcs s)" "worker_pcs s ! i = Running []"
    "recv (jobs (pool s)) = Next (Some job, c)"
  shows "pool_inv (s \<lparr> pool := (pool s) \<lparr> jobs := c \<rparr>,
                         worker_pcs := (worker_pcs s)
                           [i := Running (sent (process L fs fs' (int i) job))] \<rparr>)"
proof -
  from assms have lv: "live (worker_pcs s ! i)" by simp
  obtain r where r: "sent (process L fs fs' (int i) job) = [r]" "Result.FileID r = Job.FileID job"
    using process_sends_one by blast
  from assms(4) obtain js where js: "buf (jobs (pool s)) = job # js"
    and c: "c = (jobs (pool s)) \<lparr> buf := js \<rparr>"
    by (auto simp: recv_def split: list.splits if_splits)
  have cnt: "length (filter live ((worker_pcs s) [i := Running [r]])) = length (filter live (worker_pcs s))"
    using live_count_running [OF assms(2) lv] .
  have "mset (concat (map pending ((worker_pcs s) [i := Running [r]])))
      = mset (concat (map pending (worker_pcs s))) + {#r#}"
    using mset_concat_update [OF assms(2), of pending "Running [r]"] assms(3) by simp
  then have fl: "mset (map Result.FileID (concat (map pending ((worker_pcs s) [i := Running [r]]))))
      = mset (map Result.FileID (concat (map pending (worker_pcs s)))) + {#Job.FileID job#}"
    using r(2) by (metis (no_types, lifting) image_mset_single image_mset_union mset_map)
  have ex: "Exited \<in> set ((worker_pcs s) [i := Running [r]]) \<Longrightarrow> Exited \<in> set (worker_pcs s)"
    by (rule exited_in_update_running)
  from assms(1) cnt fl ex js show ?thesis
    unfolding c r(1) pool_inv_def in_flight_def by auto
qed

lemma inv_worker_step:
  assumes "pool_inv s" "worker_step L fs fs' i s = Next s'"
  shows "pool_inv s'"
proof -
  from assms(2) have i: "i < length (worker_pcs s)"
    by (auto simp: worker_step_def split: if_splits)
  show ?thesis
  proof (cases "worker_pcs s ! i")
    case Exited
    with assms(2) i show ?thesis by (simp add: worker_step_def)
  next
    case (Running rs)
    show ?thesis
    proof (cases rs)
      case Nil
      with Running have pc: "worker_pcs s ! i = Running []" by simp
      show ?thesis
      proof (cases "recv (jobs (pool s))")
        case Blocked
        with assms(2) i pc show ?thesis by (simp add: worker_step_def)
      next
        case Panic
        with assms(2) i pc show ?thesis by (simp add: worker_step_def)
      next
        case (Next x)
        obtain oj c where x: "x = (oj, c)" by (cases x)
        show ?thesis
        proof (cases oj)
          case None
          with Next x have "buf (jobs (pool s)) = []" "closed (jobs (pool s))"
            by (auto simp: recv_def split: list.splits if_splits)
          moreover from None Next x assms(2) i pc have "worker_exit i s = Next s'"
            by (simp add: worker_step_def)
          ultimately show ?thesis
            using inv_worker_exit [OF assms(1) i pc] by blast
        next
          case (Some job)
          with Next x have rc: "recv (jobs (pool s)) = Next (Some job, c)" by simp
          with assms(2) i pc have "s' = s \<lparr> pool := (pool s) \<lparr> jobs := c \<rparr>,
                         worker_pcs := (worker_pcs s)
                           [i := Running (sent (process L fs fs' (int i) job))] \<rparr>"
            by (simp add: worker_step_def)
          then show ?thesis
            using inv_worker_recv [OF assms(1) i pc rc] by simp
        qed
      qed
    next
      case (Cons r rs')
      with Running have pc: "worker_pcs s ! i = Running (r # rs')" by simp
      show ?thesis
      proof (cases "send (results (pool s)) r")
        case Blocked
        with assms(2) i pc show ?thesis by (simp add: worker_step_def)
      next
        case Panic
        with assms(2) i pc show ?thesis by (simp add: worker_step_def)
      next
        case (Next c)
        with assms(2) i pc have "s' = s \<lparr> pool := (pool s) \<lparr> results := c \<rparr>,
                         worker_pcs := (worker_pcs s) [i := Running rs'],
                         emitted := emitted s @ [r] \<rparr>"
          by (simp add: worker_step_def)
        then show ?thesis
          using inv_worker_send [OF assms(1) i pc Next] by simp
      qed
    qed
  qed
qed

lemma inv_step:
  "pool_inv s \<Longrightarrow> step L fs fs' a s = Next s' \<Longrightarrow> pool_inv s'"
  by (cases a)
     (auto intro: inv_submit_send inv_submit_done inv_worker_step inv_worker_done
        inv_shutdown_step inv_consumer_step)

section \<open>The pool: runs from the start\<close>

lemma sint_double:
  fixes n :: "64 word"
  assumes "0 \<le> sint n" "0 \<le> sint (n * 2)"
  shows "sint (n * 2) = 2 * sint n"
proof -
  define k where "k = sint n"
  have up: "k < 2 ^ 63"
    using sint_lt [of n] by (simp add: k_def)
  have lo: "0 \<le> k"
    using assms(1) by (simp add: k_def)
  have eq: "sint (n * 2) = (k * 2 + 2 ^ 63) mod 2 ^ 64 - 2 ^ 63"
    by (simp add: sint_word_mult signed_take_bit_eq_take_bit_shift take_bit_eq_mod k_def)
  show ?thesis
  proof (cases "k * 2 < 2 ^ 63")
    case True
    with lo have "(k * 2 + 2 ^ 63) mod 2 ^ 64 = k * 2 + 2 ^ 63"
      by (intro mod_pos_pos_trivial) auto
    with eq show ?thesis by (simp add: k_def)
  next
    case False
    with up have "(k * 2 + 2 ^ 63) mod 2 ^ 64 = k * 2 + 2 ^ 63 - 2 ^ 64"
      by (intro int_mod_pos_eq [where q = 1]) auto
    with eq up have "sint (n * 2) < 0" by simp
    with assms(2) show ?thesis by simp
  qed
qed

lemma NewPool_fields:
  assumes "NewPool n = Next p"
  shows "p = \<lparr> workers = n,
               jobs = \<lparr> buf = [], cap = nat (sint (n * 2)), closed = False \<rparr>,
               results = \<lparr> buf = [], cap = nat (sint (n * 2)), closed = False \<rparr>,
               wg = 0, ctx_done = False \<rparr> \<and> 0 \<le> sint (n * 2)"
  using assms by (auto simp: NewPool_def make_chan_def split: if_splits)

lemma filter_live_replicate: "length (filter live (replicate k (Running []))) = k"
  by (induction k) auto

lemma inv_Start:
  assumes "0 \<le> sint n" "NewPool n = Next p"
  shows "pool_inv (Start p)"
proof -
  note f = NewPool_fields [OF assms(2)]
  then have "sint (n * 2) = 2 * sint n"
    using sint_double [OF assms(1)] by simp
  then have c: "nat (sint (n * 2)) = 2 * nat (sint n)"
    using assms(1) by simp
  have p: "p = \<lparr> workers = n,
               jobs = \<lparr> buf = [], cap = 2 * nat (sint n), closed = False \<rparr>,
               results = \<lparr> buf = [], cap = 2 * nat (sint n), closed = False \<rparr>,
               wg = 0, ctx_done = False \<rparr>"
    using f c by simp
  show ?thesis
    unfolding p by (simp add: pool_inv_def Start_def in_flight_def filter_live_replicate)
qed

text \<open>No step panics as long as nobody submits after the shutdown has begun.\<close>

lemma step_no_panic:
  assumes "pool_inv s" "is_submit a \<Longrightarrow> shutdown s = NotCalled"
  shows "step L fs fs' a s \<noteq> Panic"
proof (cases a)
  case (SubmitSend job)
  with assms show ?thesis
    by (auto simp: pool_inv_def submit_send_def send_def)
next
  case (SubmitDone job)
  then show ?thesis by (simp add: submit_done_def)
next
  case (WorkerStep i)
  show ?thesis
  proof (cases "i < length (worker_pcs s)")
    case False
    with WorkerStep show ?thesis by (simp add: worker_step_def)
  next
    case True
    show ?thesis
    proof (cases "worker_pcs s ! i")
      case Exited
      with WorkerStep True show ?thesis by (simp add: worker_step_def)
    next
      case (Running rs)
      with True have "0 < length (filter live (worker_pcs s))"
        using live_count_pos [of i "worker_pcs s"] by simp
      with assms(1) have wgpos: "0 < wg (pool s)" and nr: "shutdown s \<noteq> Returned"
        and nc: "\<not> closed (results (pool s))"
        by (auto simp: pool_inv_def)
      from WorkerStep True Running wgpos nc show ?thesis
        by (auto simp: worker_step_def worker_exit_def send_def recv_def
            split: list.splits if_splits)
    qed
  qed
next
  case (WorkerDone i)
  with assms(1) show ?thesis
    by (auto simp: worker_done_def pool_inv_def split: worker_pc.splits list.splits)
next
  case ShutdownStep
  with assms(1) show ?thesis
    by (auto simp: shutdown_step_def close_def pool_inv_def split: shutdown_pc.splits)
next
  case ConsumerStep
  then show ?thesis
    by (auto simp: consumer_step_def recv_def split: list.splits)
qed

lemma step_shutdown_called:
  "step L fs fs' a s = Next s' \<Longrightarrow> shutdown s \<noteq> NotCalled \<Longrightarrow> shutdown s' \<noteq> NotCalled"
  by (cases a)
     (auto simp: submit_send_def submit_done_def worker_step_def worker_done_def worker_exit_def
        shutdown_step_def consumer_step_def
        split: outcome.splits if_splits worker_pc.splits list.splits shutdown_pc.splits
          prod.splits option.splits)

lemma step_shutdown_only_by_ShutdownStep:
  "step L fs fs' a s = Next s' \<Longrightarrow> a \<noteq> ShutdownStep \<Longrightarrow> shutdown s' = shutdown s"
  by (cases a)
     (auto simp: submit_send_def submit_done_def worker_step_def worker_done_def worker_exit_def
        consumer_step_def
        split: outcome.splits if_splits worker_pc.splits list.splits
          prod.splits option.splits)

lemma run_after_shutdown:
  "pool_inv s \<Longrightarrow> shutdown s \<noteq> NotCalled \<Longrightarrow> no_submit sched \<Longrightarrow>
     \<exists>s'. run L fs fs' sched s = Next s' \<and> pool_inv s' \<and> shutdown s' \<noteq> NotCalled"
proof (induction sched arbitrary: s)
  case Nil
  then show ?case by simp
next
  case (Cons a sched)
  from Cons.prems(3) have a: "\<not> is_submit a" and rest: "no_submit sched"
    by (auto split: if_splits)
  from a have np: "step L fs fs' a s \<noteq> Panic"
    using step_no_panic [OF Cons.prems(1)] by blast
  show ?case
  proof (cases "step L fs fs' a s")
    case Blocked
    with Cons.IH [OF Cons.prems(1,2) rest] show ?thesis by simp
  next
    case Panic
    with np show ?thesis by simp
  next
    case (Next s1)
    then have "pool_inv s1" "shutdown s1 \<noteq> NotCalled"
      using inv_step [OF Cons.prems(1)] step_shutdown_called [OF _ Cons.prems(2)] by blast+
    with Cons.IH [OF _ _ rest] Next show ?thesis by simp
  qed
qed

lemma run_graceful:
  "pool_inv s \<Longrightarrow> shutdown s = NotCalled \<Longrightarrow> graceful sched \<Longrightarrow>
     \<exists>s'. run L fs fs' sched s = Next s' \<and> pool_inv s'
        \<and> (ShutdownStep \<in> set sched \<longrightarrow> shutdown s' \<noteq> NotCalled)"
proof (induction sched arbitrary: s)
  case Nil
  then show ?case by simp
next
  case (Cons a sched)
  have np: "step L fs fs' a s \<noteq> Panic"
    using step_no_panic [OF Cons.prems(1)] Cons.prems(2) by blast
  show ?case
  proof (cases "a = ShutdownStep")
    case True
    with Cons.prems(3) have rest: "no_submit sched" by simp
    from Cons.prems(1,2) obtain s1 where s1: "step L fs fs' a s = Next s1" "shutdown s1 \<noteq> NotCalled"
      unfolding True by (auto simp: shutdown_step_def close_def pool_inv_def)
    then have "pool_inv s1"
      using inv_step [OF Cons.prems(1)] by blast
    from run_after_shutdown [OF this s1(2) rest, of L fs fs'] s1(1) show ?thesis
      by auto
  next
    case False
    with Cons.prems(3) have rest: "graceful sched"
      by (cases a) auto
    show ?thesis
    proof (cases "step L fs fs' a s")
      case Blocked
      with Cons.IH [OF Cons.prems(1,2) rest] False show ?thesis by auto
    next
      case Panic
      with np show ?thesis by simp
    next
      case (Next s1)
      then have "pool_inv s1" "shutdown s1 = NotCalled"
        using inv_step [OF Cons.prems(1)] step_shutdown_only_by_ShutdownStep [OF _ False]
          Cons.prems(2) by fastforce+
      with Cons.IH [OF _ _ rest] Next False show ?thesis by auto
    qed
  qed
qed

section \<open>The pool: the work left decreases, and the shutdown makes progress\<close>

lemma remaining_worker_exit:
  assumes "i < length (worker_pcs s)" "worker_pcs s ! i = Running []" "worker_exit i s = Next s'"
  shows "remaining s' < remaining s"
proof -
  from assms(3) have pos: "0 < wg (pool s)"
    and s': "s' = s \<lparr> pool := (pool s) \<lparr> wg := wg (pool s) - 1 \<rparr>,
                    worker_pcs := (worker_pcs s) [i := Exited] \<rparr>"
    by (auto simp: worker_exit_def split: if_splits)
  have "length (concat (map pending ((worker_pcs s) [i := Exited])))
      = length (concat (map pending (worker_pcs s)))"
    using length_concat_update [OF assms(1), of pending Exited] assms(2) by simp
  with pos show ?thesis
    unfolding s' by (simp add: remaining_def in_flight_def)
qed

lemma remaining_worker_step:
  assumes "worker_step L fs fs' i s = Next s'"
  shows "remaining s' < remaining s"
proof -
  from assms have i: "i < length (worker_pcs s)"
    by (auto simp: worker_step_def split: if_splits)
  show ?thesis
  proof (cases "worker_pcs s ! i")
    case Exited
    with assms i show ?thesis by (simp add: worker_step_def)
  next
    case (Running rs)
    show ?thesis
    proof (cases rs)
      case Nil
      with Running have pc: "worker_pcs s ! i = Running []" by simp
      show ?thesis
      proof (cases "buf (jobs (pool s))")
        case Nil
        with assms i pc have "worker_exit i s = Next s'"
          by (auto simp: worker_step_def recv_def split: if_splits)
        then show ?thesis
          using remaining_worker_exit [OF i pc] by blast
      next
        case (Cons job js)
        obtain r where r: "sent (process L fs fs' (int i) job) = [r]"
          using process_sends_one by blast
        from Cons assms i pc r have s': "s' = s \<lparr> pool := (pool s) \<lparr> jobs := (jobs (pool s)) \<lparr> buf := js \<rparr> \<rparr>,
                         worker_pcs := (worker_pcs s) [i := Running [r]] \<rparr>"
          by (simp add: worker_step_def recv_def)
        have "length (concat (map pending ((worker_pcs s) [i := Running [r]])))
            = Suc (length (concat (map pending (worker_pcs s))))"
          using length_concat_update [OF i, of pending "Running [r]"] pc by simp
        with Cons show ?thesis
          unfolding s' by (simp add: remaining_def in_flight_def)
      qed
    next
      case (Cons r rs')
      with Running have pc: "worker_pcs s ! i = Running (r # rs')" by simp
      from assms i pc have s': "s' = s \<lparr> pool := (pool s) \<lparr> results := (results (pool s)) \<lparr> buf := buf (results (pool s)) @ [r] \<rparr> \<rparr>,
                         worker_pcs := (worker_pcs s) [i := Running rs'],
                         emitted := emitted s @ [r] \<rparr>"
        by (auto simp: worker_step_def send_def split: if_splits)
      have "Suc (length (concat (map pending ((worker_pcs s) [i := Running rs']))))
          = length (concat (map pending (worker_pcs s)))"
        using length_concat_update [OF i, of pending "Running rs'"] pc by simp
      then show ?thesis
        unfolding s' by (simp add: remaining_def in_flight_def)
    qed
  qed
qed

lemma remaining_step:
  assumes "\<not> is_submit a" "step L fs fs' a s = Next s'"
  shows "remaining s' < remaining s"
proof (cases a)
  case (SubmitSend job)
  with assms show ?thesis by simp
next
  case (SubmitDone job)
  with assms show ?thesis by simp
next
  case (WorkerStep i)
  with assms show ?thesis
    using remaining_worker_step by simp
next
  case (WorkerDone i)
  with assms have "i < length (worker_pcs s) \<and> worker_pcs s ! i = Running [] \<and> worker_exit i s = Next s'"
    by (auto simp: worker_done_def split: if_splits worker_pc.splits list.splits)
  then show ?thesis
    using remaining_worker_exit by blast
next
  case ShutdownStep
  with assms show ?thesis
    by (auto simp: shutdown_step_def close_def remaining_def in_flight_def
        split: shutdown_pc.splits if_splits)
next
  case ConsumerStep
  with assms show ?thesis
    by (auto simp: consumer_step_def recv_def remaining_def in_flight_def
        split: list.splits if_splits)
qed

lemma exists_live:
  "0 < length (filter live xs) \<Longrightarrow> \<exists>i rs. i < length xs \<and> xs ! i = Running rs"
proof -
  assume "0 < length (filter live xs)"
  then obtain w where "w \<in> set xs" "live w"
    by (metis filter_False length_greater_0_conv)
  then obtain i where "i < length xs" "xs ! i = w" "live w"
    by (auto simp: in_set_conv_nth)
  then show ?thesis
    by (cases w) auto
qed

lemma progress:
  assumes "pool_inv s" "shutdown s \<noteq> NotCalled" "\<not> consumer_done s"
  shows "\<exists>a s'. \<not> is_submit a \<and> step L fs fs' a s = Next s'"
proof (cases "buf (results (pool s)) = [] \<and> \<not> closed (results (pool s))")
  case False
  with assms(3) have "\<exists>s'. step L fs fs' ConsumerStep s = Next s'"
    by (auto simp: consumer_step_def recv_def split: list.splits)
  then show ?thesis
    by (metis is_submit.simps(6))
next
  case True
  with assms(1,2) have w: "shutdown s = Waiting"
    by (cases "shutdown s") (auto simp: pool_inv_def)
  show ?thesis
  proof (cases "wg (pool s) = 0")
    case True
    with w assms(1) have "\<exists>s'. step L fs fs' ShutdownStep s = Next s'"
      by (auto simp: shutdown_step_def close_def pool_inv_def)
    then show ?thesis
      by (metis is_submit.simps(5))
  next
    case False
    with assms(1) have "0 < length (filter live (worker_pcs s))"
      by (simp add: pool_inv_def)
    then obtain i rs where i: "i < length (worker_pcs s)" "worker_pcs s ! i = Running rs"
      using exists_live by blast
    from assms(1,2) have cj: "closed (jobs (pool s))"
      and cap: "cap (results (pool s)) = 2 * length (worker_pcs s)"
      by (auto simp: pool_inv_def)
    from i True False cj cap have "\<exists>s'. step L fs fs' (WorkerStep i) s = Next s'"
      by (cases rs)
         (auto simp: worker_step_def worker_exit_def send_def recv_def split: list.splits)
    then show ?thesis
      by (metis is_submit.simps(3))
  qed
qed

lemma closed_results_facts:
  assumes "pool_inv s" "closed (results (pool s))"
  shows "mset (map Result.FileID (emitted s)) = mset (map Job.FileID (accepted s))
       \<and> list_all (\<lambda>w. \<not> live w) (worker_pcs s)
       \<and> buf (jobs (pool s)) = []"
proof -
  from assms have z: "length (filter live (worker_pcs s)) = 0"
    by (auto simp: pool_inv_def)
  then have all: "list_all (\<lambda>w. \<not> live w) (worker_pcs s)"
    by (simp add: list_all_iff filter_empty_conv)
  from z have nf: "in_flight s = []"
    using no_live_in_flight by (simp add: in_flight_def)
  have jb: "buf (jobs (pool s)) = []"
  proof (cases "worker_pcs s")
    case Nil
    with assms(1) have "cap (jobs (pool s)) = 0" "length (buf (jobs (pool s))) \<le> cap (jobs (pool s))"
      by (auto simp: pool_inv_def)
    then show ?thesis by simp
  next
    case (Cons w ws)
    with z have "w = Exited" by (cases w) auto
    with Cons assms(1) show ?thesis by (simp add: pool_inv_def)
  qed
  from assms(1) nf jb all show ?thesis
    by (simp add: pool_inv_def)
qed

lemma NewPool_1: "NewPool 1 = Next pool1"
  by (simp add: NewPool_def make_chan_def pool1_def)

lemma emitted_step:
  assumes "pool_inv s" "closed (results (pool s))" "step L fs fs' a s = Next s'"
  shows "emitted s' = emitted s \<and> closed (results (pool s'))"
proof -
  from assms(1,2) have z: "length (filter live (worker_pcs s)) = 0" and r: "shutdown s = Returned"
    by (auto simp: pool_inv_def)
  have ex: "i < length (worker_pcs s) \<Longrightarrow> worker_pcs s ! i = Exited" for i
    using no_live_all_exited [OF z] .
  show ?thesis
  proof (cases a)
    case (WorkerStep i)
    with assms(3) ex [of i] show ?thesis
      by (auto simp: worker_step_def split: if_splits)
  next
    case (WorkerDone i)
    with assms(3) ex [of i] show ?thesis
      by (auto simp: worker_done_def split: if_splits)
  next
    case (SubmitSend job)
    with assms(2,3) show ?thesis
      by (auto simp: submit_send_def split: outcome.splits)
  next
    case (SubmitDone job)
    with assms(2,3) show ?thesis
      by (auto simp: submit_done_def split: if_splits)
  next
    case ShutdownStep
    with assms(3) r show ?thesis
      by (simp add: shutdown_step_def)
  next
    case ConsumerStep
    with assms(2,3) show ?thesis
      by (auto simp: consumer_step_def recv_def split: if_splits list.splits)
  qed
qed

lemma emitted_final:
  "pool_inv s \<Longrightarrow> closed (results (pool s)) \<Longrightarrow> run L fs fs' later s = Next s' \<Longrightarrow>
     emitted s' = emitted s"
proof (induction later arbitrary: s)
  case Nil
  then show ?case by simp
next
  case (Cons a later)
  show ?case
  proof (cases "step L fs fs' a s")
    case Blocked
    with Cons show ?thesis by simp
  next
    case Panic
    with Cons.prems(3) show ?thesis by simp
  next
    case (Next s1)
    with Cons.prems(3) have r: "run L fs fs' later s1 = Next s'" by simp
    from emitted_step [OF Cons.prems(1,2) Next] inv_step [OF Cons.prems(1) Next]
      Cons.IH [OF _ _ r]
    show ?thesis by simp
  qed
qed

lemma accepted_step:
  "\<not> is_submit a \<Longrightarrow> step L fs fs' a s = Next s' \<Longrightarrow> accepted s' = accepted s"
  by (cases a)
     (auto simp: worker_step_def worker_done_def worker_exit_def shutdown_step_def
        consumer_step_def
        split: outcome.splits if_splits worker_pc.splits list.splits shutdown_pc.splits
          prod.splits option.splits)

lemma drain_completes:
  "pool_inv s \<Longrightarrow> shutdown s \<noteq> NotCalled \<Longrightarrow>
     \<exists>later s'. no_submit later \<and> run L fs fs' later s = Next s' \<and> pool_inv s'
        \<and> consumer_done s' \<and> accepted s' = accepted s"
proof (induction "remaining s" arbitrary: s rule: less_induct)
  case less
  show ?case
  proof (cases "consumer_done s")
    case True
    have "no_submit [] \<and> run L fs fs' [] s = Next s" by simp
    with True less.prems(1) show ?thesis by blast
  next
    case False
    from progress [OF less.prems(1,2) False, of L fs fs']
    obtain a s1 where a: "\<not> is_submit a" "step L fs fs' a s = Next s1"
      by blast
    have lt: "remaining s1 < remaining s"
      using remaining_step [OF a] .
    have i1: "pool_inv s1"
      using inv_step [OF less.prems(1) a(2)] .
    have c1: "shutdown s1 \<noteq> NotCalled"
      using step_shutdown_called [OF a(2) less.prems(2)] .
    from less.hyps [OF lt i1 c1]
    obtain later s' where l: "no_submit later" "run L fs fs' later s1 = Next s'" "pool_inv s'"
      "consumer_done s'" "accepted s' = accepted s1"
      by blast
    have "no_submit (a # later)"
      using a(1) l(1) by simp
    moreover have "run L fs fs' (a # later) s = Next s'"
      using a(2) l(2) by simp
    moreover have "accepted s' = accepted s"
      using l(5) accepted_step [OF a] by simp
    ultimately show ?thesis
      using l(3,4) by blast
  qed
qed

section \<open>Graceful shutdown\<close>

text \<open>
  Claim C1. Take a pool made for a worker count that is not negative and started, and any
  schedule of its goroutines in which nobody calls \<^verbatim>\<open>Submit\<close> once \<^verbatim>\<open>Shutdown\<close> is
  called. The program does not panic. Whenever the results channel is closed, the results
  sent on it are, id for id, those of the jobs \<^verbatim>\<open>Submit\<close> accepted (as many results as
  accepted jobs), every worker has returned, and no later step sends a result: the channel
  is closed after the last result is pushed. The results sent are always those the
  consumer has received followed by those still in the channel, and a consumer that has
  seen the channel closed has received exactly the results sent, each once, in order.
  Once \<^verbatim>\<open>Shutdown\<close> is called, some goroutine can take a step until the consumer has
  finished, and every step other than a \<^verbatim>\<open>Submit\<close> decreases the work left, so the
  shutdown ends; and the program can always be run on to that end, where the results
  channel is closed and the consumer has received one result for every accepted job.
\<close>

theorem C1_graceful_shutdown_loses_no_result:
  assumes "0 \<le> sint n" "NewPool n = Next p" "graceful sched"
  shows "\<exists>s. run L fs fs' sched (Start p) = Next s
           \<and> (closed (results (pool s)) \<longrightarrow>
                 mset (map Result.FileID (emitted s)) = mset (map Job.FileID (accepted s))
               \<and> length (emitted s) = length (accepted s)
               \<and> list_all (\<lambda>w. \<not> live w) (worker_pcs s)
               \<and> (\<forall>later s'. run L fs fs' later s = Next s' \<longrightarrow> emitted s' = emitted s))
           \<and> emitted s = consumed s @ buf (results (pool s))
           \<and> (consumer_done s \<longrightarrow> closed (results (pool s)) \<and> consumed s = emitted s)
           \<and> (ShutdownStep \<in> set sched \<and> \<not> consumer_done s \<longrightarrow>
                 (\<exists>a s'. \<not> is_submit a \<and> step L fs fs' a s = Next s'))
           \<and> (\<forall>a s'. \<not> is_submit a \<and> step L fs fs' a s = Next s' \<longrightarrow>
                 remaining s' < remaining s)
           \<and> (ShutdownStep \<in> set sched \<longrightarrow>
                 (\<exists>later s'. no_submit later \<and> run L fs fs' later s = Next s'
                    \<and> consumer_done s' \<and> closed (results (pool s'))
                    \<and> accepted s' = accepted s \<and> consumed s' = emitted s'
                    \<and> mset (map Result.FileID (consumed s'))
                        = mset (map Job.FileID (accepted s))))"
proof -
  have i0: "pool_inv (Start p)"
    using inv_Start [OF assms(1,2)] .
  have n0: "shutdown (Start p) = NotCalled"
    by (simp add: Start_def)
  from run_graceful [OF i0 n0 assms(3), of L fs fs']
  obtain s where s: "run L fs fs' sched (Start p) = Next s" "pool_inv s"
    "ShutdownStep \<in> set sched \<longrightarrow> shutdown s \<noteq> NotCalled"
    by blast
  have a: "closed (results (pool s)) \<longrightarrow>
             mset (map Result.FileID (emitted s)) = mset (map Job.FileID (accepted s))
           \<and> length (emitted s) = length (accepted s)
           \<and> list_all (\<lambda>w. \<not> live w) (worker_pcs s)
           \<and> (\<forall>later s'. run L fs fs' later s = Next s' \<longrightarrow> emitted s' = emitted s)"
  proof
    assume c: "closed (results (pool s))"
    from closed_results_facts [OF s(2) c]
    have m: "mset (map Result.FileID (emitted s)) = mset (map Job.FileID (accepted s))"
      and l: "list_all (\<lambda>w. \<not> live w) (worker_pcs s)"
      by simp_all
    from m have "size (mset (map Result.FileID (emitted s))) = size (mset (map Job.FileID (accepted s)))"
      by simp
    then have "length (emitted s) = length (accepted s)"
      by simp
    with m l emitted_final [OF s(2) c]
    show "mset (map Result.FileID (emitted s)) = mset (map Job.FileID (accepted s))
           \<and> length (emitted s) = length (accepted s)
           \<and> list_all (\<lambda>w. \<not> live w) (worker_pcs s)
           \<and> (\<forall>later s'. run L fs fs' later s = Next s' \<longrightarrow> emitted s' = emitted s)"
      by blast
  qed
  have b: "emitted s = consumed s @ buf (results (pool s))"
    using s(2) by (simp add: pool_inv_def)
  have c: "consumer_done s \<longrightarrow> closed (results (pool s)) \<and> consumed s = emitted s"
    using s(2) by (auto simp: pool_inv_def)
  have d: "ShutdownStep \<in> set sched \<and> \<not> consumer_done s \<longrightarrow>
             (\<exists>a s'. \<not> is_submit a \<and> step L fs fs' a s = Next s')"
    using progress [OF s(2), of L fs fs'] s(3) by blast
  have e: "\<forall>a s'. \<not> is_submit a \<and> step L fs fs' a s = Next s' \<longrightarrow> remaining s' < remaining s"
    using remaining_step by blast
  have f: "ShutdownStep \<in> set sched \<longrightarrow>
             (\<exists>later s'. no_submit later \<and> run L fs fs' later s = Next s'
                \<and> consumer_done s' \<and> closed (results (pool s'))
                \<and> accepted s' = accepted s \<and> consumed s' = emitted s'
                \<and> mset (map Result.FileID (consumed s'))
                    = mset (map Job.FileID (accepted s)))"
  proof
    assume "ShutdownStep \<in> set sched"
    with s(3) have called: "shutdown s \<noteq> NotCalled"
      by simp
    from drain_completes [OF s(2) called, of L fs fs']
    obtain later s' where l: "no_submit later" "run L fs fs' later s = Next s'" "pool_inv s'"
      "consumer_done s'" "accepted s' = accepted s"
      by blast
    from l(3,4) have cl: "closed (results (pool s'))" and ce: "consumed s' = emitted s'"
      by (auto simp: pool_inv_def)
    from closed_results_facts [OF l(3) cl]
    have "mset (map Result.FileID (emitted s')) = mset (map Job.FileID (accepted s'))"
      by simp
    with l ce cl
    show "\<exists>later s'. no_submit later \<and> run L fs fs' later s = Next s'
                \<and> consumer_done s' \<and> closed (results (pool s'))
                \<and> accepted s' = accepted s \<and> consumed s' = emitted s'
                \<and> mset (map Result.FileID (consumed s'))
                    = mset (map Job.FileID (accepted s))"
      by auto
  qed
  from s(1) a b c d e f show ?thesis
    by blast
qed

lemmas eval_pool = Start_def pool1_def schedule1_def job1_def submit_send_def submit_done_def send_def
  recv_def close_def worker_step_def worker_done_def worker_exit_def shutdown_step_def
  consumer_step_def process_def Background_def ComputeMetadata_def Open_def

theorem C1_witness:
  "\<exists>s. run (example_lib ''text/plain'') Map.empty Map.empty schedule1 (Start pool1) = Next s
      \<and> closed (results (pool s)) \<and> consumer_done s
      \<and> map Job.FileID (accepted s) = [''id1'']
      \<and> map Result.FileID (consumed s) = [''id1'']
      \<and> consumed s = emitted s
      \<and> length (emitted s) = length (accepted s)"
proof -
  have g: "graceful schedule1"
    by (simp add: schedule1_def)
  have n: "(0::int) \<le> sint (1 :: 64 word)"
    by simp
  from C1_graceful_shutdown_loses_no_result [OF n NewPool_1 g,
      of "example_lib ''text/plain''" Map.empty Map.empty]
  obtain s where s: "run (example_lib ''text/plain'') Map.empty Map.empty schedule1 (Start pool1) = Next s"
    "closed (results (pool s)) \<longrightarrow> length (emitted s) = length (accepted s)"
    "consumer_done s \<longrightarrow> closed (results (pool s)) \<and> consumed s = emitted s"
    by blast
  have "case run (example_lib ''text/plain'') Map.empty Map.empty schedule1 (Start pool1) of
      Next s \<Rightarrow> consumer_done s \<and> map Job.FileID (accepted s) = [''id1'']
                 \<and> map Result.FileID (consumed s) = [''id1'']
    | Blocked \<Rightarrow> False | Panic \<Rightarrow> False"
    by (simp add: eval_pool)
  with s show ?thesis
    by simp
qed

section \<open>Submit after Shutdown\<close>

text \<open>In every state of a running pool in which \<^verbatim>\<open>Shutdown\<close> has been called, the send
  case of \<^verbatim>\<open>Submit\<close> panics and its other case cannot be taken.\<close>

lemma submit_after_shutdown:
  assumes "pool_inv s" "shutdown s \<noteq> NotCalled"
  shows "submit_send job s = Panic \<and> submit_done job s = Blocked"
  using assms by (auto simp: pool_inv_def submit_send_def submit_done_def send_def)

text \<open>
  Claim C2, on the pool of one worker after \<^verbatim>\<open>Shutdown\<close> has closed the jobs channel:
  \<^verbatim>\<open>Submit\<close> does not return false. Its case \<^verbatim>\<open>p.jobs <- job\<close> is a send on a
  closed channel and panics; its case \<^verbatim>\<open><-p.ctx.Done()\<close>, the only one that returns
  false, is blocked, since \<^verbatim>\<open>Shutdown\<close> does not cancel the pool's context.
\<close>

theorem C2_submit_after_shutdown_panics:
  "run (example_lib ''text/plain'') Map.empty Map.empty [ShutdownStep, SubmitSend job1] (Start pool1)
     = Panic
   \<and> (case run (example_lib ''text/plain'') Map.empty Map.empty [ShutdownStep] (Start pool1) of
         Next s \<Rightarrow>
           closed (jobs (pool s))
           \<and> step (example_lib ''text/plain'') Map.empty Map.empty (SubmitSend job1) s = Panic
           \<and> step (example_lib ''text/plain'') Map.empty Map.empty (SubmitDone job1) s = Blocked
       | Blocked \<Rightarrow> False
       | Panic \<Rightarrow> False)"
  by (simp add: eval_pool)

section \<open>The configuration of the pool\<close>

text \<open>The pool \<^verbatim>\<open>NewPool\<close> makes for one worker is not the pool of the configuration
  with one worker, a job queue of 5 and a result queue of 7.\<close>

theorem C5_counterexample:
  "NewPool 1 \<noteq> NewPoolSpec \<lparr> worker_count = 1, job_queue_capacity = 5, result_queue_capacity = 7 \<rparr>"
  by (simp add: NewPool_1 pool1_def NewPoolSpec_def)

text \<open>
  Claim C5, as amended. The pool is constructed from the worker count alone:
  \<^verbatim>\<open>NewPool\<close>, for a worker count that is not negative, gives the pool of the
  configuration whose two capacities are both twice the worker count (or panics, when
  that product overflows); the capacities cannot be chosen apart from the worker count.
\<close>

theorem C5_capacities_are_twice_the_worker_count:
  assumes "0 \<le> sint n" "NewPool n = Next p"
  shows "NewPoolSpec \<lparr> worker_count = n, job_queue_capacity = 2 * nat (sint n),
                       result_queue_capacity = 2 * nat (sint n) \<rparr> = Next p
       \<and> cap (jobs p) = cap (results p)"
proof -
  note f = NewPool_fields [OF assms(2)]
  then have "sint (n * 2) = 2 * sint n"
    using sint_double [OF assms(1)] by simp
  then have "nat (sint (n * 2)) = 2 * nat (sint n)"
    using assms(1) by simp
  with f show ?thesis
    by (simp add: NewPoolSpec_def)
qed

theorem C5_witness:
  "NewPoolSpec \<lparr> worker_count = 1, job_queue_capacity = 2, result_queue_capacity = 2 \<rparr> = Next pool1
     \<and> cap (jobs pool1) = cap (results pool1)"
proof -
  have n: "(0::int) \<le> sint (1 :: 64 word)"
    by simp
  from C5_capacities_are_twice_the_worker_count [OF n NewPool_1] show ?thesis
    by simp
qed

end
